theory Spec2Isabelle
  imports Main "HOL-Library.Word"
begin

section \<open>The channel runtime of stlab/channel.hpp\<close>

text \<open>
  The header connects \<^emph>\<open>shared processes\<close> by typed channels. This theory embeds the
  header function by function. Objects live in a heap indexed by addresses; a
  \<open>std::weak_ptr\<close> is an address that may have no object behind it any more, and
  \<open>lock()\<close> is the heap lookup. Every function takes the system state and returns
  the new one. An \<open>assert\<close> that fails ends the program: it is the \<open>Inl\<close> branch
  of a sum type. \<open>std::size_t\<close> is a 64-bit word, so that \<open>--\<close> on zero wraps.
\<close>

subsection \<open>Data\<close>

type_synonym addr = nat
type_synonym size_t = "64 word"

datatype process_state = await | await_try | yield

text \<open>
  The user process \<open>T\<close>. The header finds out at compile time whether \<open>T\<close> has the
  members \<open>yield\<close>, \<open>state\<close> and \<open>close\<close>; a member that is absent is \<open>None\<close>
  here. A \<open>T\<close> without \<open>yield\<close> is called like a function (\<open>callable\<close>), one with
  \<open>yield\<close> is fed through \<open>await\<close> (\<open>stateful\<close>). The member functions act on the
  user's own data \<open>user\<close>. \<open>result_void\<close> is \<open>std::is_same<result, void>\<close>.
\<close>

datatype ('v, 'u) body =
    callable "'v \<Rightarrow> 'u \<Rightarrow> 'v \<times> 'u"
  | stateful "'v \<Rightarrow> 'u \<Rightarrow> 'u" "'u \<Rightarrow> 'v \<times> 'u"

record ('v, 'u) user_process =
  body :: "('v, 'u) body"
  state_member :: "('u \<Rightarrow> process_state) option"
  close_member :: "('u \<Rightarrow> 'u) option"
  result_void :: bool
  user :: 'u

text \<open>A \<open>sender\<close> holds a weak pointer; \<open>None\<close> is the empty handle.\<close>

type_synonym sender = "addr option"

record receiver =
  r_p :: "addr option"
  r_ready :: bool

record ('v, 'u) shared_process =
  downstream :: "sender list"
  process :: "('v, 'u) user_process"
  process_message_queue :: "'v list"
  process_running :: bool
  process_suspend_count :: size_t
  process_close_queue :: bool
  process_final :: bool
  sender_count :: size_t
  receiver_count :: size_t
  upstream :: "addr option"

text \<open>
  What the runtime does to the outside is logged: the calls into the user process
  (\<open>invoked p m v\<close>: the callable of \<open>p\<close> got \<open>m\<close> and returned \<open>v\<close>) and the
  \<open>cts\<close> tokens each shared process receives.
\<close>

datatype 'v event =
    await_called addr 'v
  | invoked addr 'v 'v
  | yield_called addr 'v
  | close_called addr
  | cts_called addr

text \<open>
  Modelled from the spec: \<open>default_scheduler\<close> comes from stlab/future.hpp, which is not
  among the sources. The spec's executor hook takes a task and runs it later, once; the
  tasks submitted and not yet run are the list \<open>scheduled\<close>, each task being the weak
  pointer its closure captured.
\<close>

record ('v, 'u) system =
  heap :: "addr \<Rightarrow> ('v, 'u) shared_process option"
  scheduled :: "addr list"
  log :: "'v event list"
  next_addr :: addr

datatype error =
    cts_but_not_running
  | broadcasting_while_suspended
  | cant_run_and_close
  | null_pointer
  | no_such_member

definition put :: "addr \<Rightarrow> ('v, 'u) shared_process \<Rightarrow> ('v, 'u) system \<Rightarrow> ('v, 'u) system" where
  "put p sp s = s\<lparr>heap := (heap s)(p \<mapsto> sp)\<rparr>"

definition modify ::
  "addr \<Rightarrow> (('v, 'u) shared_process \<Rightarrow> ('v, 'u) shared_process) \<Rightarrow> ('v, 'u) system \<Rightarrow> ('v, 'u) system" where
  "modify p f s = (case heap s p of None \<Rightarrow> s | Some sp \<Rightarrow> put p (f sp) s)"

definition emit :: "'v event \<Rightarrow> ('v, 'u) system \<Rightarrow> ('v, 'u) system" where
  "emit e s = s\<lparr>log := log s @ [e]\<rparr>"

subsection \<open>The process surface\<close>

definition has_process_yield :: "('v, 'u) user_process \<Rightarrow> bool" where
  "has_process_yield x = (case body x of callable f \<Rightarrow> False | stateful a y \<Rightarrow> True)"

definition has_process_close :: "('v, 'u) user_process \<Rightarrow> bool" where
  "has_process_close x = (close_member x \<noteq> None)"

definition get_process_state :: "('v, 'u) user_process \<Rightarrow> process_state" where
  "get_process_state x = (case state_member x of None \<Rightarrow> await | Some f \<Rightarrow> f (user x))"

text \<open>\<open>process_close(x)\<close>: calls \<open>x.close()\<close> when the member exists.\<close>

definition process_close :: "addr \<Rightarrow> ('v, 'u) system \<Rightarrow> ('v, 'u) system" where
  "process_close p s =
     (case heap s p of None \<Rightarrow> s | Some sp \<Rightarrow>
        (case close_member (process sp) of
           None \<Rightarrow> s
         | Some c \<Rightarrow> emit (close_called p)
             (put p (sp\<lparr>process := (process sp)\<lparr>user := c (user (process sp))\<rparr>\<rparr>) s)))"

text \<open>\<open>_process.await(message)\<close>; a callable has no such member.\<close>

definition process_await :: "addr \<Rightarrow> 'v \<Rightarrow> ('v, 'u) system \<Rightarrow> ('v, 'u) system option" where
  "process_await p m s =
     (case heap s p of None \<Rightarrow> None | Some sp \<Rightarrow>
        (case body (process sp) of
           callable f \<Rightarrow> None
         | stateful a y \<Rightarrow> Some (emit (await_called p m)
             (put p (sp\<lparr>process := (process sp)\<lparr>user := a m (user (process sp))\<rparr>\<rparr>) s))))"

text \<open>\<open>_process.yield()\<close>: the value and the state after it.\<close>

definition process_yield :: "addr \<Rightarrow> ('v, 'u) system \<Rightarrow> ('v \<times> ('v, 'u) system) option" where
  "process_yield p s =
     (case heap s p of None \<Rightarrow> None | Some sp \<Rightarrow>
        (case body (process sp) of
           callable f \<Rightarrow> None
         | stateful a y \<Rightarrow>
             (let (v, u) = y (user (process sp))
              in Some (v, emit (yield_called p v)
                   (put p (sp\<lparr>process := (process sp)\<lparr>user := u\<rparr>\<rparr>) s)))))"

text \<open>\<open>avoid_invoke(_process, message)\<close>: the process called as a function.\<close>

definition process_invoke :: "addr \<Rightarrow> 'v \<Rightarrow> ('v, 'u) system \<Rightarrow> ('v \<times> ('v, 'u) system) option" where
  "process_invoke p m s =
     (case heap s p of None \<Rightarrow> None | Some sp \<Rightarrow>
        (case body (process sp) of
           stateful a y \<Rightarrow> None
         | callable f \<Rightarrow>
             (let (v, u) = f m (user (process sp))
              in Some (v, emit (invoked p m v)
                   (put p (sp\<lparr>process := (process sp)\<lparr>user := u\<rparr>\<rparr>) s)))))"

subsection \<open>The blocks under the process mutex\<close>

text \<open>
  Each block below is the text between one \<open>unique_lock\<close> on \<open>_process_mutex\<close> and its
  closing brace, as a function on the shared process alone. It returns the locals the
  block leaves behind.
\<close>

definition send_locked :: "'v \<Rightarrow> ('v, 'u) shared_process \<Rightarrow> bool \<times> ('v, 'u) shared_process" where
  "send_locked arg sp =
     (let sp1 = sp\<lparr>process_message_queue := process_message_queue sp @ [arg]\<rparr>;
          do_run = (receiver_count sp1 = 0 \<and> \<not> process_running sp1)
      in (do_run, sp1\<lparr>process_running := (process_running sp1 \<or> do_run)\<rparr>))"

definition remove_sender_locked :: "('v, 'u) shared_process \<Rightarrow> bool \<times> ('v, 'u) shared_process" where
  "remove_sender_locked sp =
     (let sp1 = sp\<lparr>process_close_queue := True\<rparr>;
          do_run = (receiver_count sp1 = 0 \<and> \<not> process_running sp1)
      in (do_run, sp1\<lparr>process_running := (process_running sp1 \<or> do_run)\<rparr>))"

definition remove_receiver_locked :: "('v, 'u) shared_process \<Rightarrow> bool \<times> ('v, 'u) shared_process" where
  "remove_receiver_locked sp =
     (let do_run = ((process_message_queue sp \<noteq> [] \<or> process_close_queue sp)
                     \<and> \<not> process_running sp)
      in (do_run, sp\<lparr>process_running := (process_running sp \<or> do_run)\<rparr>))"

text \<open>\<open>task_done\<close>: the locals are \<open>(do_run, do_final)\<close>.\<close>

definition task_done_locked ::
  "('v, 'u) shared_process \<Rightarrow> (bool \<times> bool) \<times> ('v, 'u) shared_process" where
  "task_done_locked sp =
     (let do_run = (process_message_queue sp \<noteq> [] \<or> process_close_queue sp)
      in ((do_run, process_final sp), sp\<lparr>process_running := do_run\<rparr>))"

text \<open>\<open>cts\<close>: the decrement, the assertion, and the decision; the local is \<open>do_run\<close>.\<close>

definition cts_locked :: "('v, 'u) shared_process \<Rightarrow> error + bool \<times> ('v, 'u) shared_process" where
  "cts_locked sp =
     (let sp1 = sp\<lparr>process_suspend_count := process_suspend_count sp - 1\<rparr>
      in if \<not> process_running sp1 then Inl cts_but_not_running
         else if process_suspend_count sp1 = 0 then
           (if get_process_state (process sp1) = yield
                \<or> process_message_queue sp1 \<noteq> [] \<or> process_close_queue sp1
            then Inr (True, sp1)
            else Inr (False, sp1\<lparr>process_running := False\<rparr>))
         else Inr (False, sp1))"

text \<open>
  The block of \<open>dequeue\<close>, which the \<open>step\<close> without \<open>yield\<close> repeats word for word:
  the locals are \<open>(message, cts, do_close)\<close>.
\<close>

definition dequeue_locked ::
  "('v, 'u) shared_process \<Rightarrow> ('v option \<times> bool \<times> bool) \<times> ('v, 'u) shared_process" where
  "dequeue_locked sp =
     (case process_message_queue sp of
        [] \<Rightarrow> ((None, False, process_close_queue sp),
               sp\<lparr>process_close_queue := False, process_final := process_close_queue sp\<rparr>)
      | m # ms \<Rightarrow> ((Some m, ms = [], False), sp\<lparr>process_message_queue := ms\<rparr>))"

subsection \<open>The sender-facing and receiver-facing protocol\<close>

text \<open>\<open>run\<close> hands the executor a task that holds a weak pointer to this process.\<close>

definition run :: "addr \<Rightarrow> ('v, 'u) system \<Rightarrow> ('v, 'u) system" where
  "run p s = s\<lparr>scheduled := scheduled s @ [p]\<rparr>"

text \<open>
  A member function called through a pointer with no object behind it is undefined
  behaviour in C++. The functions that cannot fail otherwise leave the state as it is
  there; those that can fail report \<open>null_pointer\<close>. Calling a member the user
  process does not have is a compile error in C++; it is \<open>no_such_member\<close> here,
  and \<open>step\<close> never gets there, since it picks its variant by \<open>has_process_yield\<close>.
\<close>

definition add_sender :: "addr \<Rightarrow> ('v, 'u) system \<Rightarrow> ('v, 'u) system" where
  "add_sender p s = modify p (\<lambda>sp. sp\<lparr>sender_count := sender_count sp + 1\<rparr>) s"

definition remove_sender :: "addr \<Rightarrow> ('v, 'u) system \<Rightarrow> ('v, 'u) system" where
  "remove_sender p s =
     (case heap s p of None \<Rightarrow> s | Some sp \<Rightarrow>
        (let sp1 = sp\<lparr>sender_count := sender_count sp - 1\<rparr>
         in if sender_count sp1 = 0 then
              (let (do_run, sp2) = remove_sender_locked sp1;
                   s1 = put p sp2 s
               in if do_run then run p s1 else s1)
            else put p sp1 s))"

definition add_receiver :: "addr \<Rightarrow> ('v, 'u) system \<Rightarrow> ('v, 'u) system" where
  "add_receiver p s =
     modify p (\<lambda>sp. if result_void (process sp) then sp
                    else sp\<lparr>receiver_count := receiver_count sp + 1\<rparr>) s"

definition remove_receiver :: "addr \<Rightarrow> ('v, 'u) system \<Rightarrow> ('v, 'u) system" where
  "remove_receiver p s =
     (case heap s p of None \<Rightarrow> s | Some sp \<Rightarrow>
        if result_void (process sp) then s
        else
          (let sp1 = sp\<lparr>receiver_count := receiver_count sp - 1\<rparr>
           in if receiver_count sp1 = 0 then
                (let (do_run, sp2) = remove_receiver_locked sp1;
                     s1 = put p sp2 s
                 in if do_run then run p s1 else s1)
              else put p sp1 s))"

definition send :: "'v \<Rightarrow> addr \<Rightarrow> ('v, 'u) system \<Rightarrow> ('v, 'u) system" where
  "send arg p s =
     (case heap s p of None \<Rightarrow> s | Some sp \<Rightarrow>
        (let (do_run, sp1) = send_locked arg sp;
             s1 = put p sp1 s
         in if do_run then run p s1 else s1))"

definition cts :: "addr \<Rightarrow> ('v, 'u) system \<Rightarrow> error + ('v, 'u) system" where
  "cts p s =
     (case heap s p of None \<Rightarrow> Inl null_pointer | Some sp \<Rightarrow>
        (case cts_locked sp of
           Inl e \<Rightarrow> Inl e
         | Inr (do_run, sp1) \<Rightarrow>
             (let s1 = emit (cts_called p) (put p sp1 s)
              in Inr (if do_run then run p s1 else s1))))"

subsection \<open>The sender handle\<close>

text \<open>\<open>sender::operator()\<close>: lock the weak pointer, and send if there is an object.\<close>

definition sender_call :: "sender \<Rightarrow> 'v \<Rightarrow> ('v, 'u) system \<Rightarrow> ('v, 'u) system" where
  "sender_call e arg s =
     (case e of None \<Rightarrow> s | Some q \<Rightarrow>
        (case heap s q of None \<Rightarrow> s | Some sp \<Rightarrow> send arg q s))"

text \<open>\<open>sender::close\<close>: the handle is empty afterwards.\<close>

definition sender_close :: "sender \<Rightarrow> ('v, 'u) system \<Rightarrow> sender \<times> ('v, 'u) system" where
  "sender_close e s =
     (None, (case e of None \<Rightarrow> s | Some q \<Rightarrow>
               (case heap s q of None \<Rightarrow> s | Some sp \<Rightarrow> remove_sender q s)))"

text \<open>\<open>sender::~sender\<close>.\<close>

definition sender_dtor :: "sender \<Rightarrow> ('v, 'u) system \<Rightarrow> ('v, 'u) system" where
  "sender_dtor e s =
     (case e of None \<Rightarrow> s | Some q \<Rightarrow>
        (case heap s q of None \<Rightarrow> s | Some sp \<Rightarrow> remove_sender q s))"

text \<open>\<open>sender::sender(const sender&)\<close>: the copy, and the count it adds.\<close>

definition sender_copy :: "sender \<Rightarrow> ('v, 'u) system \<Rightarrow> sender \<times> ('v, 'u) system" where
  "sender_copy x s =
     (x, (case x of None \<Rightarrow> s | Some q \<Rightarrow>
            (case heap s q of None \<Rightarrow> s | Some sp \<Rightarrow> add_sender q s)))"

subsection \<open>Broadcast\<close>

text \<open>
  \<open>for_each_n(p, n, f)\<close> applies \<open>f\<close> to \<open>n\<close> elements from \<open>p\<close> on and returns the
  position after them. Going past the end is undefined behaviour in C++; the model stops
  there.
\<close>

fun for_each_n :: "'a list \<Rightarrow> nat \<Rightarrow> ('a \<Rightarrow> 's \<Rightarrow> 's) \<Rightarrow> 's \<Rightarrow> 'a list \<times> 's" where
  "for_each_n xs 0 f s = (xs, s)"
| "for_each_n [] (Suc n) f s = ([], s)"
| "for_each_n (x # xs) (Suc n) f s = for_each_n xs n f (f x s)"

text \<open>
  \<open>broadcast\<close> has two parts, and other threads may append to \<open>_downstream\<close> between
  them: the snapshot of the size with the write of \<open>_process_suspend_count\<close>, and the
  calls of the first \<open>n\<close> senders.
\<close>

definition broadcast_begin :: "addr \<Rightarrow> ('v, 'u) system \<Rightarrow> error + nat \<times> ('v, 'u) system" where
  "broadcast_begin p s =
     (case heap s p of None \<Rightarrow> Inl null_pointer | Some sp \<Rightarrow>
        (let n = length (downstream sp)
         in if process_suspend_count sp \<noteq> 0 then Inl broadcasting_while_suspended
            else Inr (n, put p (sp\<lparr>process_suspend_count := of_nat n + 1\<rparr>) s)))"

definition broadcast_send :: "addr \<Rightarrow> nat \<Rightarrow> 'v \<Rightarrow> ('v, 'u) system \<Rightarrow> ('v, 'u) system" where
  "broadcast_send p n args s =
     (case heap s p of None \<Rightarrow> s | Some sp \<Rightarrow>
        snd (for_each_n (downstream sp) n (\<lambda>e. sender_call e args) s))"

definition broadcast :: "addr \<Rightarrow> 'v \<Rightarrow> ('v, 'u) system \<Rightarrow> error + ('v, 'u) system" where
  "broadcast p args s =
     (case broadcast_begin p s of
        Inl e \<Rightarrow> Inl e
      | Inr (n, s1) \<Rightarrow> Inr (broadcast_send p n args s1))"

text \<open>
  \<open>map\<close>: \<open>emplace_back(f)\<close> copies the parameter into the deque, and the parameter,
  passed by value, is destroyed when \<open>map\<close> returns. (\<open>map\<close> is taken in HOL.)
\<close>

definition map_sender :: "sender \<Rightarrow> addr \<Rightarrow> ('v, 'u) system \<Rightarrow> ('v, 'u) system" where
  "map_sender f p s =
     (case heap s p of None \<Rightarrow> s | Some sp0 \<Rightarrow>
        (let (c, s1) = sender_copy f s;
             s2 = modify p (\<lambda>sp. sp\<lparr>downstream := downstream sp @ [c]\<rparr>) s1
         in sender_dtor f s2))"

subsection \<open>The step\<close>

text \<open>\<open>_downstream.clear()\<close> destroys the senders of the list, front to back.\<close>

definition clear_downstream :: "addr \<Rightarrow> ('v, 'u) system \<Rightarrow> ('v, 'u) system" where
  "clear_downstream p s =
     (case heap s p of None \<Rightarrow> s | Some sp \<Rightarrow>
        fold sender_dtor (downstream sp) (put p (sp\<lparr>downstream := []\<rparr>) s))"

definition task_done :: "addr \<Rightarrow> ('v, 'u) system \<Rightarrow> error + ('v, 'u) system" where
  "task_done p s =
     (case heap s p of None \<Rightarrow> Inl null_pointer | Some sp \<Rightarrow>
        (let ((do_run, do_final), sp1) = task_done_locked sp;
             s1 = put p sp1 s
         in if do_run \<and> do_final then Inl cant_run_and_close
            else
              (let s2 = (if do_run then run p s1 else s1)
               in Inr (if do_final then clear_downstream p s2 else s2))))"

text \<open>\<open>if (cts && _upstream) _upstream->cts();\<close>\<close>

definition upstream_cts :: "bool \<Rightarrow> addr option \<Rightarrow> ('v, 'u) system \<Rightarrow> error + ('v, 'u) system" where
  "upstream_cts c up s = (case up of None \<Rightarrow> Inr s | Some u \<Rightarrow> if c then cts u s else Inr s)"

text \<open>
  \<open>dequeue\<close> returns whether it took a message. Only the \<open>step\<close> with \<open>yield\<close> calls
  it; for a process with no \<open>await\<close> the call in it does not compile.
\<close>

definition dequeue :: "addr \<Rightarrow> ('v, 'u) system \<Rightarrow> error + bool \<times> ('v, 'u) system" where
  "dequeue p s =
     (case heap s p of None \<Rightarrow> Inl null_pointer | Some sp \<Rightarrow>
        (let ((message, c, do_close), sp1) = dequeue_locked sp
         in case upstream_cts c (upstream sp1) (put p sp1 s) of
              Inl e \<Rightarrow> Inl e
            | Inr s1 \<Rightarrow>
                (case message of
                   Some m \<Rightarrow>
                     (case process_await p m s1 of
                        None \<Rightarrow> Inl no_such_member
                      | Some s2 \<Rightarrow> Inr (True, s2))
                 | None \<Rightarrow> Inr (False, if do_close then process_close p s1 else s1))))"

text \<open>The length of the message queue of the object at an address.\<close>

definition queued :: "addr \<Rightarrow> ('v, 'u) system \<Rightarrow> nat" where
  "queued p s = (case heap s p of None \<Rightarrow> 0 | Some sp \<Rightarrow> length (process_message_queue sp))"

text \<open>
  The loop of the \<open>step\<close> with \<open>yield\<close>:
  \<open>while (get_process_state(_process) != process_state::yield) { if (!dequeue()) break; }\<close>
\<close>

function await_loop :: "addr \<Rightarrow> ('v, 'u) system \<Rightarrow> error + ('v, 'u) system" where
  "await_loop p s =
     (case heap s p of None \<Rightarrow> Inl null_pointer | Some sp \<Rightarrow>
        if get_process_state (process sp) \<noteq> yield then
          (case dequeue p s of
             Inl e \<Rightarrow> Inl e
           | Inr (took, s1) \<Rightarrow> if took then await_loop p s1 else Inr s1)
        else Inr s)"
  by pat_completeness auto
termination
proof (relation "measure (\<lambda>(p, s). queued p s)")
  show "wf (measure (\<lambda>(p, s). queued p (s :: ('v, 'u) system)))"
    by simp
next
  fix p :: addr and s s1 :: "('v, 'u) system" and sp r took
  assume "heap s p = Some sp" and "dequeue p s = Inr r" and "(took, s1) = r" and took
  then show "((p, s1), (p, s)) \<in> measure (\<lambda>(p, s). queued p s)"
    by (auto simp: dequeue_def dequeue_locked_def upstream_cts_def cts_def cts_locked_def
        queued_def put_def emit_def run_def process_await_def Let_def
        split: list.splits sum.splits option.splits if_splits body.splits)
qed

declare await_loop.simps [simp del]

text \<open>\<open>broadcast(...); cts();\<close>, the tail of both variants of \<open>step\<close>.\<close>

definition broadcast_cts :: "addr \<Rightarrow> 'v \<Rightarrow> ('v, 'u) system \<Rightarrow> error + ('v, 'u) system" where
  "broadcast_cts p v s = (case broadcast p v s of Inl e \<Rightarrow> Inl e | Inr s1 \<Rightarrow> cts p s1)"

text \<open>\<open>broadcast(_process.yield()); cts();\<close>\<close>

definition yield_broadcast_cts :: "addr \<Rightarrow> ('v, 'u) system \<Rightarrow> error + ('v, 'u) system" where
  "yield_broadcast_cts p s =
     (case process_yield p s of
        None \<Rightarrow> Inl no_such_member
      | Some (v, s1) \<Rightarrow> broadcast_cts p v s1)"

definition step_yield :: "addr \<Rightarrow> ('v, 'u) system \<Rightarrow> error + ('v, 'u) system" where
  "step_yield p s =
     (case await_loop p s of
        Inl e \<Rightarrow> Inl e
      | Inr s1 \<Rightarrow>
          (case heap s1 p of None \<Rightarrow> Inl null_pointer | Some sp \<Rightarrow>
             if get_process_state (process sp) = await then task_done p s1
             else yield_broadcast_cts p s1))"

definition step_no_yield :: "addr \<Rightarrow> ('v, 'u) system \<Rightarrow> error + ('v, 'u) system" where
  "step_no_yield p s =
     (case heap s p of None \<Rightarrow> Inl null_pointer | Some sp \<Rightarrow>
        (let ((message, do_cts, do_close), sp1) = dequeue_locked sp
         in case upstream_cts do_cts (upstream sp1) (put p sp1 s) of
              Inl e \<Rightarrow> Inl e
            | Inr s1 \<Rightarrow>
                (case message of
                   Some m \<Rightarrow>
                     (case process_invoke p m s1 of
                        None \<Rightarrow> Inl no_such_member
                      | Some (v, s2) \<Rightarrow> broadcast_cts p v s2)
                 | None \<Rightarrow> task_done p s1)))"

text \<open>\<open>step<T>\<close>: the variant is chosen by \<open>has_process_yield<T>\<close>.\<close>

definition step :: "addr \<Rightarrow> ('v, 'u) system \<Rightarrow> error + ('v, 'u) system" where
  "step p s =
     (case heap s p of None \<Rightarrow> Inl null_pointer | Some sp \<Rightarrow>
        if has_process_yield (process sp) then step_yield p s else step_no_yield p s)"

text \<open>
  The task that \<open>run\<close> submits: \<open>auto p = _p.lock(); if (p) p->template step<T>();\<close>
\<close>

definition task :: "addr \<Rightarrow> ('v, 'u) system \<Rightarrow> error + ('v, 'u) system" where
  "task p s = (case heap s p of None \<Rightarrow> Inr s | Some sp \<Rightarrow> step p s)"

subsection \<open>The receiver handle and the channel\<close>

text \<open>Both constructors of \<open>shared_process\<close>; the first has no upstream.\<close>

definition new_shared_process ::
  "('v, 'u) user_process \<Rightarrow> addr option \<Rightarrow> ('v, 'u) shared_process" where
  "new_shared_process f up =
     \<lparr>downstream = [], process = f, process_message_queue = [], process_running = False,
      process_suspend_count = 0, process_close_queue = False, process_final = False,
      sender_count = 1, receiver_count = (if result_void f then 0 else 1), upstream = up\<rparr>"

text \<open>\<open>std::make_shared\<close>: the object gets the next free address.\<close>

definition make_shared :: "('v, 'u) shared_process \<Rightarrow> ('v, 'u) system \<Rightarrow> addr \<times> ('v, 'u) system" where
  "make_shared sp s = (next_addr s, s\<lparr>heap := (heap s)(next_addr s \<mapsto> sp), next_addr := next_addr s + 1\<rparr>)"

text \<open>\<open>struct identity\<close>: a callable that returns its argument.\<close>

definition identity :: "'u \<Rightarrow> ('v, 'u) user_process" where
  "identity u = \<lparr>body = callable (\<lambda>x u. (x, u)), state_member = None, close_member = None,
                 result_void = False, user = u\<rparr>"

definition channel :: "'u \<Rightarrow> ('v, 'u) system \<Rightarrow> (sender \<times> receiver) \<times> ('v, 'u) system" where
  "channel u s =
     (let (p, s1) = make_shared (new_shared_process (identity u) None) s
      in ((Some p, \<lparr>r_p = Some p, r_ready = False\<rparr>), s1))"

text \<open>
  The members that the two interfaces of a shared process declare. A handle reaches
  the process through a pointer to one of them: \<open>receiver\<close> through
  \<open>shared_process_receiver\<close>, \<open>sender\<close> through \<open>shared_process_sender\<close>.
\<close>

datatype member =
    map_member
  | cts_member
  | add_receiver_member
  | remove_receiver_member
  | send_member
  | add_sender_member
  | remove_sender_member

definition shared_process_receiver :: "member list" where
  "shared_process_receiver = [map_member, cts_member, add_receiver_member, remove_receiver_member]"

definition shared_process_sender :: "member list" where
  "shared_process_sender = [send_member, add_sender_member, remove_sender_member]"

text \<open>
  \<open>receiver::receiver(const receiver&)\<close>: copies \<open>_p\<close>, leaves \<open>_ready\<close> at its default,
  and calls \<open>_p->add_sender()\<close>. The call is looked up in \<open>shared_process_receiver\<close>,
  the type \<open>_p\<close> points to; when the name is not declared there the constructor does not
  compile, whatever \<open>_p\<close> holds.
\<close>

definition receiver_copy :: "receiver \<Rightarrow> ('v, 'u) system \<Rightarrow> error + receiver \<times> ('v, 'u) system" where
  "receiver_copy x s =
     (if add_sender_member \<in> set shared_process_receiver
      then Inr (\<lparr>r_p = r_p x, r_ready = False\<rparr>,
                (case r_p x of None \<Rightarrow> s | Some p \<Rightarrow> add_sender p s))
      else Inl no_such_member)"

text \<open>
  What the specification says of the copy of a receiver: it adds one to the receiver
  count of the process.
\<close>

definition receiver_copy_specified :: "receiver \<Rightarrow> ('v, 'u) system \<Rightarrow> receiver \<times> ('v, 'u) system" where
  "receiver_copy_specified x s =
     (\<lparr>r_p = r_p x, r_ready = False\<rparr>,
      (case r_p x of None \<Rightarrow> s | Some p \<Rightarrow> add_receiver p s))"

text \<open>\<open>receiver::set_ready\<close>: the receiver afterwards, and the state.\<close>

definition set_ready :: "receiver \<Rightarrow> ('v, 'u) system \<Rightarrow> receiver \<times> ('v, 'u) system" where
  "set_ready r s =
     (r\<lparr>r_ready := True\<rparr>,
      (case r_p r of None \<Rightarrow> s | Some p \<Rightarrow> if \<not> r_ready r then remove_receiver p s else s))"

text \<open>
  \<open>receiver::operator|\<close>, a \<open>const\<close> member: the receiver it was called on as it is
  afterwards, the receiver it returns, and the state.
\<close>

definition compose ::
  "receiver \<Rightarrow> ('v, 'u) user_process \<Rightarrow> ('v, 'u) system \<Rightarrow> error + (receiver \<times> receiver) \<times> ('v, 'u) system" where
  "compose r f s =
     (case r_p r of None \<Rightarrow> Inl null_pointer | Some u \<Rightarrow>
        (case heap s u of None \<Rightarrow> Inl null_pointer | Some sp \<Rightarrow>
           (let (p, s1) = make_shared (new_shared_process f (Some u)) s;
                s2 = map_sender (Some p) u s1
            in Inr ((r, \<lparr>r_p = Some p, r_ready = False\<rparr>), s2))))"

subsection \<open>The executor\<close>

text \<open>
  Modelled from the spec: the executor runs a submitted task at some later time. It may
  pick any task it holds; \<open>execute i\<close> takes the \<open>i\<close>-th and runs it.
\<close>

definition execute :: "nat \<Rightarrow> ('v, 'u) system \<Rightarrow> error + ('v, 'u) system" where
  "execute i s =
     (if i < length (scheduled s)
      then task (scheduled s ! i) (s\<lparr>scheduled := take i (scheduled s) @ drop (Suc i) (scheduled s)\<rparr>)
      else Inr s)"

definition empty_system :: "('v, 'u) system" where
  "empty_system = \<lparr>heap = (\<lambda>a. None), scheduled = [], log = [], next_addr = 0\<rparr>"

subsection \<open>Example processes and systems\<close>

text \<open>
  The processes and states that the theorems below are tried on. Messages are integers
  and the user's data is a list of integers.
\<close>

text \<open>A plain function \<open>f\<close> given to \<open>|\<close>: a callable with no other member.\<close>

definition plain_function :: "('v \<Rightarrow> 'v) \<Rightarrow> 'u \<Rightarrow> ('v, 'u) user_process" where
  "plain_function f u = \<lparr>body = callable (\<lambda>x u. (f x, u)), state_member = None,
     close_member = None, result_void = False, user = u\<rparr>"

text \<open>A function object with a \<open>close\<close> member that counts its calls.\<close>

definition closing_function :: "(int, int list) user_process" where
  "closing_function = \<lparr>body = callable (\<lambda>x u. (x, u)), state_member = None,
     close_member = Some (\<lambda>u. 0 # u), result_void = False, user = []\<rparr>"

text \<open>
  A process with \<open>await\<close>, \<open>yield\<close>, \<open>state\<close> and \<open>close\<close>: it buffers what it is
  given and yields it back in order; with one value buffered it reports \<open>await_try\<close>,
  with more \<open>yield\<close>.
\<close>

definition buffering :: "(int, int list) user_process" where
  "buffering = \<lparr>body = stateful (\<lambda>x u. u @ [x]) (\<lambda>u. case u of [] \<Rightarrow> (0, []) | x # xs \<Rightarrow> (x, xs)),
     state_member = Some (\<lambda>u. case u of [] \<Rightarrow> await | [x] \<Rightarrow> await_try | x # y # xs \<Rightarrow> yield),
     close_member = Some (\<lambda>u. u), result_void = False, user = []\<rparr>"

text \<open>\<open>channel<int>()\<close> in the empty system: the head is at address 0.\<close>

definition head_only :: "(int, int list) system" where
  "head_only = snd (channel [] empty_system)"

definition head_rx :: receiver where
  "head_rx = \<lparr>r_p = Some 0, r_ready = False\<rparr>"

definition tail_rx :: receiver where
  "tail_rx = \<lparr>r_p = Some 1, r_ready = False\<rparr>"

text \<open>The state of a result, or the empty system after an assertion.\<close>

definition state_of :: "error + ('v, 'u) system \<Rightarrow> ('v, 'u) system" where
  "state_of r = (case r of Inl e \<Rightarrow> empty_system | Inr s \<Rightarrow> s)"

text \<open>\<open>head | identity\<close>: a second identity stage at address 1.\<close>

definition piped :: "(int, int list) system" where
  "piped = state_of (map_sum id snd (compose head_rx (identity []) head_only))"

text \<open>Both receivers are set ready, so that the stages run.\<close>

definition released :: "(int, int list) system" where
  "released = snd (set_ready tail_rx (snd (set_ready head_rx piped)))"

text \<open>The producer sends 10, and the executor runs the head's step.\<close>

definition head_ran :: "(int, int list) system" where
  "head_ran = state_of (execute 0 (sender_call (Some 0) 10 released))"

text \<open>A field of the object at an address, if there is one.\<close>

definition look :: "(('v, 'u) shared_process \<Rightarrow> 'a) \<Rightarrow> addr \<Rightarrow> ('v, 'u) system \<Rightarrow> 'a option" where
  "look f p s = map_option f (heap s p)"

text \<open>
  The second stage is destroyed while its step is still scheduled and the head still
  holds a sender for it.
\<close>

definition orphaned :: "(int, int list) system" where
  "orphaned = head_ran\<lparr>heap := (heap head_ran)(1 := None)\<rparr>"

text \<open>
  A broadcast of the head in two parts, with a third stage attached between them: the
  snapshot is taken in \<open>piped\<close>, then \<open>head | identity\<close> appends a sender for address 2.
\<close>

definition snapshot_taken :: "(int, int list) system" where
  "snapshot_taken = state_of (map_sum id snd (broadcast_begin 0 piped))"

definition late_joined :: "(int, int list) system" where
  "late_joined = state_of (map_sum id snd (compose head_rx (identity []) snapshot_taken))"

text \<open>
  \<open>head | buffering\<close>, both receivers ready, the producer sends 5 and the head's step
  runs; then the second stage's \<open>dequeue\<close> has taken the 5 and its loop goes on.
\<close>

definition buffer_piped :: "(int, int list) system" where
  "buffer_piped = state_of (map_sum id snd (compose head_rx buffering head_only))"

definition buffer_head_ran :: "(int, int list) system" where
  "buffer_head_ran =
     state_of (execute 0 (sender_call (Some 0) 5
       (snd (set_ready tail_rx (snd (set_ready head_rx buffer_piped))))))"

definition buffer_mid :: "(int, int list) system" where
  "buffer_mid = state_of (map_sum id snd (dequeue 1 buffer_head_ran))"

text \<open>
  \<open>(head | buffering) | identity\<close>: a third stage at address 2 behind the buffering
  stage. All three receivers are set ready, the producer sends 5 and the head's step
  runs: the step of the buffering stage is scheduled with the 5 in its queue.
\<close>

definition third_rx :: receiver where
  "third_rx = \<lparr>r_p = Some 2, r_ready = False\<rparr>"

definition buffer_chain :: "(int, int list) system" where
  "buffer_chain = state_of (map_sum id snd (compose tail_rx (identity []) buffer_piped))"

definition buffer_fed :: "(int, int list) system" where
  "buffer_fed =
     state_of (execute 0 (sender_call (Some 0) 5
       (snd (set_ready third_rx (snd (set_ready tail_rx (snd (set_ready head_rx buffer_chain))))))))"

text \<open>
  \<open>head | closing_function\<close>, both receivers ready; the producer closes its sender and
  the head's step runs, which closes the head and drops its sender for the second stage.
\<close>

definition closing_piped :: "(int, int list) system" where
  "closing_piped = state_of (map_sum id snd (compose head_rx closing_function head_only))"

definition closing_head_ran :: "(int, int list) system" where
  "closing_head_ran =
     state_of (execute 0 (snd (sender_close (Some 0)
       (snd (set_ready tail_rx (snd (set_ready head_rx closing_piped)))))))"

text \<open>The same with \<open>head | buffering\<close>.\<close>

definition buffer_closing :: "(int, int list) system" where
  "buffer_closing =
     state_of (execute 0 (snd (sender_close (Some 0)
       (snd (set_ready tail_rx (snd (set_ready head_rx buffer_piped)))))))"

subsection \<open>A shared process among threads\<close>

text \<open>
  The mutex makes every locked block atomic, and the counts are atomic integers. So
  whatever the threads of a program do to one shared process, in whatever order, is a
  sequence of the actions below: each is one locked block of the header, one operation
  on a count, or a write to a member that no lock protects (the suspend count in
  \<open>broadcast\<close>, the downstream list, the user process). No order among them is
  assumed, with one exception. A call through a sender, the copy of a sender and the
  drop of a sender are made by a thread that holds a \<open>sender\<close>; every \<open>sender\<close> bound to
  the process has added one to \<open>_sender_count\<close> (the constructor of the process counts
  the first, the copy constructor each copy) and takes it back only when it is dropped,
  so these three happen while \<open>_sender_count\<close> is not zero (fewer than \<open>2 ^ 64\<close> handles
  exist). The flag says that a drop has taken the count to zero and has not yet entered
  the locked block of \<open>remove_sender\<close>.
\<close>

inductive interleaving :: "('v, 'u) shared_process \<Rightarrow> bool \<Rightarrow> bool" where
  created: "interleaving (new_shared_process f up) False"
| sent:
    "interleaving sp closing \<Longrightarrow> sender_count sp \<noteq> 0 \<Longrightarrow>
     interleaving (snd (send_locked arg sp)) closing"
| sender_added:
    "interleaving sp closing \<Longrightarrow> sender_count sp \<noteq> 0 \<Longrightarrow>
     interleaving (sp\<lparr>sender_count := sender_count sp + 1\<rparr>) closing"
| sender_removed:
    "interleaving sp closing \<Longrightarrow> sender_count sp \<noteq> 0 \<Longrightarrow>
     interleaving (sp\<lparr>sender_count := sender_count sp - 1\<rparr>) (sender_count sp - 1 = 0)"
| sender_closed:
    "interleaving sp True \<Longrightarrow> interleaving (snd (remove_sender_locked sp)) False"
| receiver_added:
    "interleaving sp closing \<Longrightarrow>
     interleaving (sp\<lparr>receiver_count := receiver_count sp + 1\<rparr>) closing"
| receiver_removed:
    "interleaving sp closing \<Longrightarrow>
     interleaving (sp\<lparr>receiver_count := receiver_count sp - 1\<rparr>) closing"
| receiver_closed:
    "interleaving sp closing \<Longrightarrow> interleaving (snd (remove_receiver_locked sp)) closing"
| dequeued:
    "interleaving sp closing \<Longrightarrow> interleaving (snd (dequeue_locked sp)) closing"
| task_finished:
    "interleaving sp closing \<Longrightarrow> interleaving (snd (task_done_locked sp)) closing"
| cts_received:
    "interleaving sp closing \<Longrightarrow> cts_locked sp = Inr (b, sp1) \<Longrightarrow> interleaving sp1 closing"
| suspended:
    "interleaving sp closing \<Longrightarrow> interleaving (sp\<lparr>process_suspend_count := n\<rparr>) closing"
| downstream_changed:
    "interleaving sp closing \<Longrightarrow> interleaving (sp\<lparr>downstream := ds\<rparr>) closing"
| user_called:
    "interleaving sp closing \<Longrightarrow> interleaving (sp\<lparr>process := x\<rparr>) closing"

text \<open>
  What holds of a shared process among threads: \<open>close_queue\<close>, \<open>final\<close> and a pending
  drop to zero each mean that no sender is left; once \<open>final\<close> is set the queue is empty,
  \<open>close_queue\<close> is clear and no drop is pending.
\<close>

definition closing_inv :: "('v, 'u) shared_process \<Rightarrow> bool \<Rightarrow> bool" where
  "closing_inv sp closing \<longleftrightarrow>
     ((process_close_queue sp \<or> process_final sp \<or> closing) \<longrightarrow> sender_count sp = 0)
   \<and> (process_final sp \<longrightarrow> \<not> process_close_queue sp \<and> process_message_queue sp = [] \<and> \<not> closing)
   \<and> (closing \<longrightarrow> \<not> process_close_queue sp)"

text \<open>
  The shared process of a fresh channel after its only sender was dropped and a step
  has applied the close.
\<close>

definition closed_head :: "(int, int list) shared_process" where
  "closed_head =
     snd (dequeue_locked (snd (remove_sender_locked
       ((new_shared_process (identity []) None)\<lparr>sender_count := 0\<rparr>))))"

subsection \<open>A step, block by block\<close>

text \<open>
  A step that the executor has started is a thread of its own, and other threads run
  between its blocks. A thread is written as what it has left to do, with the locals it
  holds: \<open>starting\<close> has done nothing yet; \<open>holding\<close> has left the locked block of the
  \<open>step\<close> without \<open>yield\<close> with \<open>message\<close> and \<open>do_cts\<close> (\<open>do_close\<close> is never read
  again); \<open>invoking\<close> has called the upstream's \<open>cts\<close> if it had to; \<open>snapshot\<close> holds
  what the process returned and enters \<open>broadcast\<close>; \<open>asserting\<close> holds the size \<open>n\<close> read
  under \<open>_downstream_mutex\<close>; \<open>marking\<close> has passed the assertion and writes
  \<open>_process_suspend_count\<close>, which the source does without the lock; \<open>sending\<close> has
  called \<open>i\<close> senders and has \<open>k\<close> more to call; \<open>finishing\<close> calls \<open>cts\<close>; \<open>ending\<close>
  calls \<open>task_done\<close>.
\<close>

datatype 'v thread =
    starting addr
  | holding addr "'v option" bool
  | invoking addr "'v option"
  | snapshot addr 'v
  | asserting addr 'v nat
  | marking addr 'v nat
  | sending addr 'v nat nat
  | finishing addr
  | ending addr

text \<open>
  \<open>advance\<close> runs a thread up to its next block boundary: one locked block, or one
  call made outside the locks. It returns what is left of the thread, \<open>None\<close> when the
  step has returned. A block that decides to call \<open>run\<close> is taken together with that
  call, which only hands the executor a task. The \<open>step\<close> with \<open>yield\<close> is taken as a
  whole.
\<close>

fun advance :: "'v thread \<Rightarrow> ('v, 'u) system \<Rightarrow> error + 'v thread option \<times> ('v, 'u) system" where
  "advance (starting p) s =
     (case heap s p of None \<Rightarrow> Inr (None, s) | Some sp \<Rightarrow>
        if has_process_yield (process sp) then map_sum id (Pair None) (step_yield p s)
        else
          (let ((message, do_cts, do_close), sp1) = dequeue_locked sp
           in Inr (Some (holding p message do_cts), put p sp1 s)))"
| "advance (holding p message do_cts) s =
     (case heap s p of None \<Rightarrow> Inl null_pointer | Some sp \<Rightarrow>
        (case upstream_cts do_cts (upstream sp) s of
           Inl e \<Rightarrow> Inl e
         | Inr s1 \<Rightarrow> Inr (Some (invoking p message), s1)))"
| "advance (invoking p message) s =
     (case message of
        None \<Rightarrow> Inr (Some (ending p), s)
      | Some m \<Rightarrow>
          (case process_invoke p m s of
             None \<Rightarrow> Inl no_such_member
           | Some (v, s1) \<Rightarrow> Inr (Some (snapshot p v), s1)))"
| "advance (snapshot p v) s =
     (case heap s p of None \<Rightarrow> Inl null_pointer | Some sp \<Rightarrow>
        Inr (Some (asserting p v (length (downstream sp))), s))"
| "advance (asserting p v n) s =
     (case heap s p of None \<Rightarrow> Inl null_pointer | Some sp \<Rightarrow>
        if process_suspend_count sp \<noteq> 0 then Inl broadcasting_while_suspended
        else Inr (Some (marking p v n), s))"
| "advance (marking p v n) s =
     (case heap s p of None \<Rightarrow> Inl null_pointer | Some sp \<Rightarrow>
        Inr (Some (sending p v 0 n), put p (sp\<lparr>process_suspend_count := of_nat n + 1\<rparr>) s))"
| "advance (sending p v i 0) s = Inr (Some (finishing p), s)"
| "advance (sending p v i (Suc k)) s =
     (case heap s p of None \<Rightarrow> Inl null_pointer | Some sp \<Rightarrow>
        (case drop i (downstream sp) of
           [] \<Rightarrow> Inr (Some (finishing p), s)
         | e # es \<Rightarrow> Inr (Some (sending p v (Suc i) k), sender_call e v s)))"
| "advance (finishing p) s = (case cts p s of Inl e \<Rightarrow> Inl e | Inr s1 \<Rightarrow> Inr (None, s1))"
| "advance (ending p) s = (case task_done p s of Inl e \<Rightarrow> Inl e | Inr s1 \<Rightarrow> Inr (None, s1))"

declare advance.simps [simp del]

fun blocks_left :: "'v thread \<Rightarrow> nat" where
  "blocks_left (starting p) = 7"
| "blocks_left (holding p message do_cts) = 6"
| "blocks_left (invoking p message) = 5"
| "blocks_left (snapshot p v) = 4"
| "blocks_left (asserting p v n) = 3"
| "blocks_left (marking p v n) = 2"
| "blocks_left (sending p v i k) = 1"
| "blocks_left (finishing p) = 0"
| "blocks_left (ending p) = 0"

fun calls_left :: "'v thread \<Rightarrow> nat" where
  "calls_left (sending p v i k) = k"
| "calls_left (starting p) = 0"
| "calls_left (holding p message do_cts) = 0"
| "calls_left (invoking p message) = 0"
| "calls_left (snapshot p v) = 0"
| "calls_left (asserting p v n) = 0"
| "calls_left (marking p v n) = 0"
| "calls_left (finishing p) = 0"
| "calls_left (ending p) = 0"

text \<open>A thread that no other thread interrupts: it runs until the step returns.\<close>

function complete :: "'v thread \<Rightarrow> ('v, 'u) system \<Rightarrow> error + ('v, 'u) system" where
  "complete t s =
     (case advance t s of
        Inl e \<Rightarrow> Inl e
      | Inr (None, s1) \<Rightarrow> Inr s1
      | Inr (Some t1, s1) \<Rightarrow> complete t1 s1)"
  by pat_completeness auto
termination
proof (relation "measures [\<lambda>(t, s). blocks_left t, \<lambda>(t, s). calls_left t]")
  show "wf (measures [\<lambda>(t, s :: ('v, 'u) system). blocks_left (t :: 'v thread), \<lambda>(t, s). calls_left t])"
    by simp
next
  fix t t1 :: "'v thread" and s s1 :: "('v, 'u) system" and r x
  assume "advance t s = Inr r" and "(x, s1) = r" and "x = Some t1"
  then have "advance t s = Inr (Some t1, s1)"
    by simp
  then show "((t1, s1), (t, s)) \<in> measures [\<lambda>(t, s). blocks_left t, \<lambda>(t, s). calls_left t]"
    by (cases "(t, s)" rule: advance.cases)
      (auto simp: advance.simps Let_def map_sum_def
        split: option.splits sum.splits prod.splits if_splits list.splits)
qed

declare complete.simps [simp del]

subsection \<open>A producer, an identity channel and one mapping receiver\<close>

text \<open>
  The program \<open>auto ch = channel<T>(); auto r = ch.second | f;\<close> and what may happen
  to it then, in any order: the producer calls the sender with the next value, either
  receiver is set ready, the executor starts one of the tasks it holds on a thread of
  its own, and one of the threads runs up to its next block boundary. \<open>vs\<close> are the
  values sent so far and \<open>ts\<close> the steps in progress. A thread that fails an assertion
  ends the program, so it has no successor.
\<close>

inductive concurrent ::
  "('v \<Rightarrow> 'v) \<Rightarrow> 'u \<Rightarrow> 'v list \<Rightarrow> receiver \<Rightarrow> receiver \<Rightarrow> ('v, 'u) system \<Rightarrow> 'v thread list \<Rightarrow> bool"
  for f :: "'v \<Rightarrow> 'v" and u :: 'u where
  built:
    "channel u empty_system = ((tx, rx), s0) \<Longrightarrow>
     compose rx (plain_function f u) s0 = Inr ((rx1, r1), s1) \<Longrightarrow>
     concurrent f u [] rx1 r1 s1 []"
| produced:
    "concurrent f u vs rx r s ts \<Longrightarrow> concurrent f u (vs @ [v]) rx r (sender_call (Some 0) v s) ts"
| head_ready:
    "concurrent f u vs rx r s ts \<Longrightarrow> set_ready rx s = (rx1, s1) \<Longrightarrow> concurrent f u vs rx1 r s1 ts"
| tail_ready:
    "concurrent f u vs rx r s ts \<Longrightarrow> set_ready r s = (r1, s1) \<Longrightarrow> concurrent f u vs rx r1 s1 ts"
| dispatched:
    "concurrent f u vs rx r s ts \<Longrightarrow> i < length (scheduled s) \<Longrightarrow>
     concurrent f u vs rx r (s\<lparr>scheduled := take i (scheduled s) @ drop (Suc i) (scheduled s)\<rparr>)
       (starting (scheduled s ! i) # ts)"
| advanced:
    "concurrent f u vs rx r s ts \<Longrightarrow> t \<in> set ts \<Longrightarrow> advance t s = Inr (t1, s1) \<Longrightarrow>
     concurrent f u vs rx r s1 (case t1 of None \<Rightarrow> remove1 t ts | Some t2 \<Rightarrow> t2 # remove1 t ts)"

text \<open>What the process at an address returned, call by call.\<close>

fun result_at :: "addr \<Rightarrow> 'v event \<Rightarrow> 'v list" where
  "result_at p (invoked q m v) = (if q = p then [v] else [])"
| "result_at p (await_called q m) = []"
| "result_at p (yield_called q v) = []"
| "result_at p (close_called q) = []"
| "result_at p (cts_called q) = []"

definition observed :: "addr \<Rightarrow> 'v event list \<Rightarrow> 'v list" where
  "observed p es = concat (map (result_at p) es)"

text \<open>The \<open>cts\<close> tokens that the process at an address has received.\<close>

fun cts_at :: "addr \<Rightarrow> 'v event \<Rightarrow> bool" where
  "cts_at p (cts_called q) = (q = p)"
| "cts_at p (invoked q m v) = False"
| "cts_at p (await_called q m) = False"
| "cts_at p (yield_called q v) = False"
| "cts_at p (close_called q) = False"

definition tokens :: "addr \<Rightarrow> 'v event list \<Rightarrow> nat" where
  "tokens p es = length (filter (cts_at p) es)"

text \<open>
  The states of this pipeline: the head at address 0 with its queue, its running flag,
  its suspend count and its receiver count, and the mapping stage at address 1 with the
  same.
\<close>

definition head_stage ::
  "'u \<Rightarrow> 'v list \<Rightarrow> bool \<Rightarrow> size_t \<Rightarrow> size_t \<Rightarrow> ('v, 'u) shared_process" where
  "head_stage u q r sc rc =
     \<lparr>downstream = [Some 1], process = identity u, process_message_queue = q,
      process_running = r, process_suspend_count = sc, process_close_queue = False,
      process_final = False, sender_count = 1, receiver_count = rc, upstream = None\<rparr>"

definition tail_stage ::
  "('v \<Rightarrow> 'v) \<Rightarrow> 'u \<Rightarrow> 'v list \<Rightarrow> bool \<Rightarrow> size_t \<Rightarrow> size_t \<Rightarrow> ('v, 'u) shared_process" where
  "tail_stage f u q r sc rc =
     \<lparr>downstream = [], process = plain_function f u, process_message_queue = q,
      process_running = r, process_suspend_count = sc, process_close_queue = False,
      process_final = False, sender_count = 1, receiver_count = rc, upstream = Some 0\<rparr>"

definition two_stages ::
  "('v, 'u) shared_process \<Rightarrow> ('v, 'u) shared_process \<Rightarrow> addr list \<Rightarrow> 'v event list
   \<Rightarrow> ('v, 'u) system" where
  "two_stages a b sch lg = \<lparr>heap = [0 \<mapsto> a, 1 \<mapsto> b], scheduled = sch, log = lg, next_addr = 2\<rparr>"

text \<open>The count a receiver holds in its process.\<close>

definition held :: "receiver \<Rightarrow> size_t" where
  "held r = (if r_ready r then 0 else 1)"

text \<open>
  Where the thread of a stage is, if it has one: the message it has taken and not yet
  given to its process (\<open>in_hand\<close>), the result it has and has not yet sent on
  (\<open>unsent\<close>), whether it has written the suspend count and not yet called its own
  \<open>cts\<close> (\<open>begun\<close>), whether its process has returned (\<open>returned\<close>), whether it has just
  taken a message and not yet told its upstream (\<open>taking\<close>, with its \<open>do_cts\<close> in
  \<open>flagged\<close>), whether it has told its upstream and not yet called its process
  (\<open>delivered\<close>), and whether it has not entered its first block (\<open>arrived\<close>).
\<close>

fun in_hand :: "'v thread option \<Rightarrow> 'v list" where
  "in_hand (Some (holding p (Some m) c)) = [m]"
| "in_hand (Some (invoking p (Some m))) = [m]"
| "in_hand t = []"

fun unsent :: "'v thread option \<Rightarrow> 'v list" where
  "unsent (Some (snapshot p v)) = [v]"
| "unsent (Some (asserting p v n)) = [v]"
| "unsent (Some (marking p v n)) = [v]"
| "unsent (Some (sending p v i (Suc k))) = [v]"
| "unsent t = []"

fun begun :: "'v thread option \<Rightarrow> bool" where
  "begun (Some (sending p v i k)) = True"
| "begun (Some (finishing p)) = True"
| "begun t = False"

fun returned :: "'v thread option \<Rightarrow> bool" where
  "returned (Some (snapshot p v)) = True"
| "returned (Some (asserting p v n)) = True"
| "returned (Some (marking p v n)) = True"
| "returned (Some (sending p v i k)) = True"
| "returned (Some (finishing p)) = True"
| "returned t = False"

fun taking :: "'v thread option \<Rightarrow> bool" where
  "taking (Some (holding p m c)) = True"
| "taking t = False"

fun flagged :: "'v thread option \<Rightarrow> bool" where
  "flagged (Some (holding p m c)) = c"
| "flagged t = True"

fun delivered :: "'v thread option \<Rightarrow> bool" where
  "delivered (Some (invoking p m)) = True"
| "delivered t = False"

fun arrived :: "'v thread option \<Rightarrow> bool" where
  "arrived (Some (starting p)) = True"
| "arrived t = False"

text \<open>
  The threads a stage at \<open>p\<close> with \<open>d\<close> downstream senders can have in this pipeline: its
  queue was not empty when the thread took from it, and the thread goes through the
  \<open>d\<close> senders.
\<close>

fun shape :: "addr \<Rightarrow> nat \<Rightarrow> 'v thread option \<Rightarrow> bool" where
  "shape p d None = True"
| "shape p d (Some (starting q)) = (q = p)"
| "shape p d (Some (holding q m c)) = (q = p \<and> m \<noteq> None)"
| "shape p d (Some (invoking q m)) = (q = p \<and> m \<noteq> None)"
| "shape p d (Some (snapshot q v)) = (q = p)"
| "shape p d (Some (asserting q v n)) = (q = p \<and> n = d)"
| "shape p d (Some (marking q v n)) = (q = p \<and> n = d)"
| "shape p d (Some (sending q v i k)) = (q = p \<and> i + k = d)"
| "shape p d (Some (finishing q)) = (q = p)"
| "shape p d (Some (ending q)) = False"

text \<open>
  What holds in every state of this pipeline, of the head (queue \<open>qa\<close>, running flag
  \<open>ra\<close>, suspend count \<open>sa\<close>, thread \<open>pa\<close>) and the mapping stage (\<open>qb\<close>, \<open>rb\<close>, \<open>sb\<close>,
  \<open>pb\<close>). What the mapping stage has returned, followed by the image of what is on its
  way to it, is the image of what was sent; the same for the head. The head's \<open>cts\<close>
  calls are one for each of its own finished steps and one for each message the mapping
  stage has taken. The head's suspend count is one while its own \<open>cts\<close> is due plus one
  while a message is between its broadcast and the token of the mapping stage; while the
  mapping stage owes that token the head takes no message. The mapping stage holds at
  most one message. A stage with a thread runs and is not scheduled; a stage without
  one is scheduled exactly when it runs with no token outstanding, and then has a
  message; a stage that does not run has an empty queue or a receiver that is not ready.
\<close>

definition balanced ::
  "('v \<Rightarrow> 'v) \<Rightarrow> 'v list \<Rightarrow> size_t \<Rightarrow> size_t \<Rightarrow> 'v list \<Rightarrow> bool \<Rightarrow> size_t
   \<Rightarrow> 'v list \<Rightarrow> bool \<Rightarrow> size_t \<Rightarrow> addr list \<Rightarrow> 'v event list
   \<Rightarrow> 'v thread option \<Rightarrow> 'v thread option \<Rightarrow> bool" where
  "balanced f vs hx hr qa ra sa qb rb sb sch lg pa pb \<longleftrightarrow>
     shape 0 1 pa \<and> shape 1 0 pb
   \<and> observed 1 lg @ map f (in_hand pb) @ map f qb @ map f (unsent pa) @ map f (in_hand pa) @ map f qa
       = map f vs
   \<and> observed 0 lg @ in_hand pa @ qa = vs
   \<and> tokens 0 lg + (if returned pa then 1 else 0)
       = length (observed 0 lg) + length (observed 1 lg) + (if delivered pb then 1 else 0)
   \<and> distinct sch \<and> set sch \<subseteq> {0, 1}
   \<and> (pa \<noteq> None \<longrightarrow> ra \<and> 0 \<notin> set sch)
   \<and> sa = (if begun pa then 1 else 0)
          + (if qb \<noteq> [] \<or> taking pb \<or> (begun pa \<and> unsent pa \<noteq> []) then 1 else 0)
   \<and> (qb \<noteq> [] \<or> taking pb \<longrightarrow> in_hand pa = [] \<and> unsent pa = [] \<and> \<not> arrived pa)
   \<and> (arrived pa \<longrightarrow> qa \<noteq> [])
   \<and> (pa = None \<and> sa \<noteq> 0 \<longrightarrow> ra \<and> 0 \<notin> set sch)
   \<and> (pa = None \<and> sa = 0 \<longrightarrow>
        (0 \<in> set sch \<longleftrightarrow> ra) \<and> (ra \<longrightarrow> qa \<noteq> []) \<and> (\<not> ra \<longrightarrow> qa = [] \<or> hx \<noteq> 0))
   \<and> (pb \<noteq> None \<longrightarrow> rb \<and> 1 \<notin> set sch)
   \<and> sb = (if begun pb then 1 else 0)
   \<and> (pb = None \<longrightarrow>
        (1 \<in> set sch \<longleftrightarrow> rb) \<and> (rb \<longrightarrow> qb \<noteq> []) \<and> (\<not> rb \<longrightarrow> qb = [] \<or> hr \<noteq> 0))
   \<and> (arrived pb \<longrightarrow> qb \<noteq> [])
   \<and> (taking pb \<longrightarrow> qb = [] \<and> flagged pb)
   \<and> length qb \<le> 1"

definition flow_inv ::
  "('v \<Rightarrow> 'v) \<Rightarrow> 'u \<Rightarrow> 'v list \<Rightarrow> receiver \<Rightarrow> receiver \<Rightarrow> ('v, 'u) system \<Rightarrow> 'v thread list \<Rightarrow> bool" where
  "flow_inv f u vs rx r s ts \<longleftrightarrow>
     (\<exists>qa ra sa qb rb sb sch lg pa pb.
        s = two_stages (head_stage u qa ra sa (held rx)) (tail_stage f u qb rb sb (held r)) sch lg
      \<and> r_p rx = Some 0 \<and> r_p r = Some 1
      \<and> distinct ts \<and> set ts = set_option pa \<union> set_option pb
      \<and> balanced f vs (held rx) (held r) qa ra sa qb rb sb sch lg pa pb)"

text \<open>
  A run of this pipeline with \<open>f x = 1 + x\<close>: both receivers are set ready, the producer
  sends 10 and 20, and the executor runs four steps.
\<close>

definition mapped :: "(int, int list) system" where
  "mapped = state_of (map_sum id snd (compose head_rx (plain_function ((+) 1) []) head_only))"

definition served :: "(int, int list) system" where
  "served =
     state_of (execute 0 (state_of (execute 0 (state_of (execute 0 (state_of (execute 0
       (sender_call (Some 0) 20 (sender_call (Some 0) 10
         (snd (set_ready tail_rx (snd (set_ready head_rx mapped)))))))))))))"

section \<open>Basic facts\<close>

subsection \<open>What is logged\<close>

lemma log_put [simp]: "log (put p sp s) = log s"
  by (simp add: put_def)

lemma log_run [simp]: "log (run p s) = log s"
  by (simp add: run_def)

lemma log_emit [simp]: "log (emit e s) = log s @ [e]"
  by (simp add: emit_def)

lemma heap_run [simp]: "heap (run p s) = heap s"
  by (simp add: run_def)

lemma heap_emit [simp]: "heap (emit e s) = heap s"
  by (simp add: emit_def)

lemma heap_put [simp]: "heap (put p sp s) = (heap s)(p \<mapsto> sp)"
  by (simp add: put_def)

lemma log_send [simp]: "log (send arg p s) = log s"
  by (simp add: send_def Let_def split: option.splits prod.splits)

lemma log_remove_sender [simp]: "log (remove_sender p s) = log s"
  by (simp add: remove_sender_def Let_def split: option.splits prod.splits)

lemma log_sender_call [simp]: "log (sender_call e arg s) = log s"
  by (simp add: sender_call_def split: option.splits)

lemma log_sender_dtor [simp]: "log (sender_dtor e s) = log s"
  by (simp add: sender_dtor_def split: option.splits)

lemma log_for_each_n:
  "(\<And>x t. log (f x t) = log t) \<Longrightarrow> log (snd (for_each_n xs n f s)) = log s"
  by (induction xs n f s rule: for_each_n.induct) simp_all

lemma log_broadcast_send [simp]: "log (broadcast_send p n v s) = log s"
  by (simp add: broadcast_send_def log_for_each_n split: option.splits)

lemma log_broadcast: "broadcast p v s = Inr s1 \<Longrightarrow> log s1 = log s"
  by (auto simp: broadcast_def broadcast_begin_def Let_def split: option.splits if_splits)

lemma log_cts: "cts p s = Inr s1 \<Longrightarrow> log s1 = log s @ [cts_called p]"
  by (auto simp: cts_def Let_def split: option.splits sum.splits)

lemma log_fold_sender_dtor [simp]: "log (fold sender_dtor ds s) = log s"
  by (induction ds arbitrary: s) simp_all

lemma log_clear_downstream [simp]: "log (clear_downstream p s) = log s"
  by (simp add: clear_downstream_def split: option.splits)

lemma log_task_done: "task_done p s = Inr s1 \<Longrightarrow> log s1 = log s"
  by (auto simp: task_done_def Let_def split: option.splits prod.splits if_splits)

lemma log_broadcast_cts: "broadcast_cts p v s = Inr s1 \<Longrightarrow> log s1 = log s @ [cts_called p]"
  by (auto simp: broadcast_cts_def log_broadcast log_cts split: sum.splits)

text \<open>What \<open>cts\<close> leaves alone: every user process.\<close>

lemma cts_locked_process: "cts_locked sp = Inr (b, sp1) \<Longrightarrow> process sp1 = process sp"
  by (auto simp: cts_locked_def Let_def split: if_splits)

lemma cts_process:
  "cts u s = Inr s1 \<Longrightarrow> map_option process (heap s1 p) = map_option process (heap s p)"
  by (auto simp: cts_def Let_def dest: cts_locked_process split: option.splits sum.splits)

lemma upstream_cts_process:
  "upstream_cts c up s = Inr s1 \<Longrightarrow> map_option process (heap s1 p) = map_option process (heap s p)"
  by (auto simp: upstream_cts_def cts_process split: option.splits if_splits)

lemma upstream_cts_log:
  "upstream_cts c up s = Inr s1 \<Longrightarrow>
   log s1 = log s @ (if c then (case up of None \<Rightarrow> [] | Some u \<Rightarrow> [cts_called u]) else [])"
  by (auto simp: upstream_cts_def log_cts split: option.splits if_splits)

subsection \<open>What the calls leave alone\<close>

lemma look_simps [simp]: "look f p s = map_option f (heap s p)"
  by (simp add: look_def)

lemma for_each_n_fold: "for_each_n xs n f s = (drop n xs, fold f (take n xs) s)"
  by (induction xs n f s rule: for_each_n.induct) simp_all

lemma heap_send_other: "q \<noteq> p \<Longrightarrow> heap (send arg p s) q = heap s q"
  by (simp add: send_def Let_def split: option.splits prod.splits)

lemma heap_sender_call_other: "e \<noteq> Some q \<Longrightarrow> heap (sender_call e arg s) q = heap s q"
  by (cases e) (simp_all add: sender_call_def heap_send_other split: option.splits)

lemma heap_fold_sender_call_other:
  "Some q \<notin> set ds \<Longrightarrow> heap (fold (\<lambda>e. sender_call e arg) ds s) q = heap s q"
  by (induction ds arbitrary: s) (auto simp: heap_sender_call_other)

subsection \<open>The step, case by case\<close>

lemma step_no_yield_drained:
  assumes "heap s p = Some sp" and "process_message_queue sp = []"
  shows "step_no_yield p s =
           task_done p (put p (sp\<lparr>process_close_queue := False,
                                  process_final := process_close_queue sp\<rparr>) s)"
  using assms by (simp add: step_no_yield_def dequeue_locked_def upstream_cts_def split: option.splits)

lemma step_no_yield_takes:
  assumes "heap s p = Some sp" and "process_message_queue sp = m # ms"
    and "step_no_yield p s = Inr s1"
  shows "\<exists>v. log s1 = log s
               @ (if ms = [] then (case upstream sp of None \<Rightarrow> [] | Some u \<Rightarrow> [cts_called u]) else [])
               @ [invoked p m v, cts_called p]"
proof -
  let ?s0 = "put p (sp\<lparr>process_message_queue := ms\<rparr>) s"
  from assms obtain s2 where up: "upstream_cts (ms = []) (upstream sp) ?s0 = Inr s2"
    and rest: "(case process_invoke p m s2 of None \<Rightarrow> Inl no_such_member
                | Some (v, s3) \<Rightarrow> broadcast_cts p v s3) = Inr s1"
    by (auto simp: step_no_yield_def dequeue_locked_def split: sum.splits)
  from rest obtain v s3 where inv: "process_invoke p m s2 = Some (v, s3)"
    and bc: "broadcast_cts p v s3 = Inr s1"
    by (auto split: option.splits)
  from inv have "log s3 = log s2 @ [invoked p m v]"
    by (auto simp: process_invoke_def Let_def split: option.splits body.splits prod.splits)
  with upstream_cts_log [OF up] log_broadcast_cts [OF bc] show ?thesis
    by auto
qed

lemma dequeue_drained:
  assumes "heap s p = Some sp" and "process_message_queue sp = []"
  shows "dequeue p s =
           Inr (False,
                (if process_close_queue sp then process_close p else id)
                  (put p (sp\<lparr>process_close_queue := False,
                           process_final := process_close_queue sp\<rparr>) s))"
  using assms by (simp add: dequeue_def dequeue_locked_def upstream_cts_def split: option.splits)

lemma await_loop_yield:
  "heap s p = Some sp \<Longrightarrow> get_process_state (process sp) = yield \<Longrightarrow> await_loop p s = Inr s"
  by (simp add: await_loop.simps)

lemma await_loop_drained:
  assumes "heap s p = Some sp" and "get_process_state (process sp) \<noteq> yield"
    and "process_message_queue sp = []"
  shows "await_loop p s =
           Inr ((if process_close_queue sp then process_close p else id)
                  (put p (sp\<lparr>process_close_queue := False,
                           process_final := process_close_queue sp\<rparr>) s))"
  using assms by (subst await_loop.simps) (simp add: dequeue_drained)

lemma dequeue_takes:
  assumes "heap s p = Some sp" and "process_message_queue sp = m # ms"
    and "dequeue p s = Inr (took, s1)"
  shows "took \<and> has_process_yield (process sp) \<and> log s1 = log s
               @ (if ms = [] then (case upstream sp of None \<Rightarrow> [] | Some u \<Rightarrow> [cts_called u]) else [])
               @ [await_called p m]"
proof -
  let ?s0 = "put p (sp\<lparr>process_message_queue := ms\<rparr>) s"
  from assms obtain s2 where up: "upstream_cts (ms = []) (upstream sp) ?s0 = Inr s2"
    and took: took and s1: "process_await p m s2 = Some s1"
    by (auto simp: dequeue_def dequeue_locked_def split: sum.splits option.splits)
  from upstream_cts_process [OF up, of p]
  have "map_option process (heap s2 p) = Some (process sp)"
    by simp
  then obtain sp2 where sp2: "heap s2 p = Some sp2" "process sp2 = process sp"
    by (cases "heap s2 p") auto
  with s1 have "has_process_yield (process sp)" and "log s1 = log s2 @ [await_called p m]"
    by (auto simp: process_await_def has_process_yield_def split: body.splits)
  with upstream_cts_log [OF up] took show ?thesis
    by auto
qed

subsection \<open>The example systems, evaluated\<close>

lemmas runtime_defs =
  put_def modify_def emit_def run_def has_process_yield_def has_process_close_def
  get_process_state_def process_close_def process_await_def process_yield_def
  process_invoke_def send_locked_def remove_sender_locked_def remove_receiver_locked_def
  task_done_locked_def cts_locked_def dequeue_locked_def add_sender_def remove_sender_def
  add_receiver_def remove_receiver_def send_def cts_def sender_call_def sender_close_def
  sender_dtor_def sender_copy_def broadcast_begin_def broadcast_send_def broadcast_def
  map_sender_def clear_downstream_def task_done_def upstream_cts_def dequeue_def
  broadcast_cts_def yield_broadcast_cts_def step_yield_def step_no_yield_def step_def
  task_def new_shared_process_def make_shared_def channel_def
  set_ready_def compose_def execute_def
  empty_system_def state_of_def Let_def

lemma head_only_eq:
  "head_only = \<lparr>heap = [0 \<mapsto> new_shared_process (identity []) None], scheduled = [], log = [], next_addr = 1\<rparr>"
  by (simp add: head_only_def channel_def make_shared_def empty_system_def)

lemma piped_eq:
  "piped = \<lparr>heap = [0 \<mapsto> (new_shared_process (identity []) None)\<lparr>downstream := [Some 1]\<rparr>,
                      1 \<mapsto> new_shared_process (identity []) (Some 0)],
             scheduled = [], log = [], next_addr = 2\<rparr>"
  by (simp add: piped_def head_only_eq head_rx_def runtime_defs)

lemma released_eq:
  "released = \<lparr>heap = [0 \<mapsto> (new_shared_process (identity []) None)\<lparr>downstream := [Some 1], receiver_count := 0\<rparr>,
                      1 \<mapsto> (new_shared_process (identity []) (Some 0))\<lparr>receiver_count := 0\<rparr>],
             scheduled = [], log = [], next_addr = 2\<rparr>"
  by (simp add: released_def piped_eq head_rx_def tail_rx_def identity_def runtime_defs)

lemma head_ran_eq:
  "head_ran = \<lparr>heap = [0 \<mapsto> (new_shared_process (identity []) None)\<lparr>downstream := [Some 1],
                          receiver_count := 0, process_running := True, process_suspend_count := 1\<rparr>,
                      1 \<mapsto> (new_shared_process (identity []) (Some 0))\<lparr>receiver_count := 0,
                          process_message_queue := [10], process_running := True\<rparr>],
             scheduled = [1], log = [invoked 0 10 10, cts_called 0], next_addr = 2\<rparr>"
  by (auto simp add: head_ran_def released_eq identity_def runtime_defs intro!: ext)

lemma orphaned_eq:
  "orphaned = \<lparr>heap = [0 \<mapsto> (new_shared_process (identity []) None)\<lparr>downstream := [Some 1],
                          receiver_count := 0, process_running := True, process_suspend_count := 1\<rparr>],
             scheduled = [1], log = [invoked 0 10 10, cts_called 0], next_addr = 2\<rparr>"
  by (auto simp add: orphaned_def head_ran_eq intro!: ext)

lemma snapshot_taken_eq:
  "snapshot_taken = \<lparr>heap = [0 \<mapsto> (new_shared_process (identity []) None)\<lparr>downstream := [Some 1],
                          process_suspend_count := 2\<rparr>,
                      1 \<mapsto> new_shared_process (identity []) (Some 0)],
             scheduled = [], log = [], next_addr = 2\<rparr>"
  by (auto simp add: snapshot_taken_def piped_eq runtime_defs intro!: ext)

lemma late_joined_eq:
  "late_joined = \<lparr>heap = [0 \<mapsto> (new_shared_process (identity []) None)\<lparr>downstream := [Some 1, Some 2],
                          process_suspend_count := 2\<rparr>,
                      1 \<mapsto> new_shared_process (identity []) (Some 0),
                      2 \<mapsto> new_shared_process (identity []) (Some 0)],
             scheduled = [], log = [], next_addr = 3\<rparr>"
  by (auto simp add: late_joined_def snapshot_taken_eq head_rx_def runtime_defs intro!: ext)

lemma closing_piped_eq:
  "closing_piped = \<lparr>heap = [0 \<mapsto> (new_shared_process (identity []) None)\<lparr>downstream := [Some 1]\<rparr>,
                      1 \<mapsto> new_shared_process closing_function (Some 0)],
             scheduled = [], log = [], next_addr = 2\<rparr>"
  by (auto simp add: closing_piped_def head_only_eq head_rx_def runtime_defs intro!: ext)

lemma closing_head_ran_eq:
  "closing_head_ran = \<lparr>heap = [0 \<mapsto> (new_shared_process (identity []) None)\<lparr>
                          receiver_count := 0, sender_count := 0, process_final := True\<rparr>,
                      1 \<mapsto> (new_shared_process closing_function (Some 0))\<lparr>
                          receiver_count := 0, sender_count := 0, process_close_queue := True,
                          process_running := True\<rparr>],
             scheduled = [1], log = [], next_addr = 2\<rparr>"
  by (auto simp add: closing_head_ran_def closing_piped_eq head_rx_def tail_rx_def identity_def
      closing_function_def runtime_defs intro!: ext)

lemma buffer_piped_eq:
  "buffer_piped = \<lparr>heap = [0 \<mapsto> (new_shared_process (identity []) None)\<lparr>downstream := [Some 1]\<rparr>,
                      1 \<mapsto> new_shared_process buffering (Some 0)],
             scheduled = [], log = [], next_addr = 2\<rparr>"
  by (auto simp add: buffer_piped_def head_only_eq head_rx_def runtime_defs intro!: ext)

lemma buffer_closing_eq:
  "buffer_closing = \<lparr>heap = [0 \<mapsto> (new_shared_process (identity []) None)\<lparr>
                          receiver_count := 0, sender_count := 0, process_final := True\<rparr>,
                      1 \<mapsto> (new_shared_process buffering (Some 0))\<lparr>
                          receiver_count := 0, sender_count := 0, process_close_queue := True,
                          process_running := True\<rparr>],
             scheduled = [1], log = [], next_addr = 2\<rparr>"
  by (auto simp add: buffer_closing_def buffer_piped_eq head_rx_def tail_rx_def identity_def
      buffering_def runtime_defs intro!: ext)

lemma buffer_head_ran_eq:
  "buffer_head_ran = \<lparr>heap = [0 \<mapsto> (new_shared_process (identity []) None)\<lparr>downstream := [Some 1],
                          receiver_count := 0, process_running := True, process_suspend_count := 1\<rparr>,
                      1 \<mapsto> (new_shared_process buffering (Some 0))\<lparr>receiver_count := 0,
                          process_message_queue := [5], process_running := True\<rparr>],
             scheduled = [1], log = [invoked 0 5 5, cts_called 0], next_addr = 2\<rparr>"
  by (auto simp add: buffer_head_ran_def buffer_piped_eq head_rx_def tail_rx_def identity_def
      buffering_def runtime_defs intro!: ext)

lemma buffer_mid_eq:
  "buffer_mid = \<lparr>heap = [0 \<mapsto> (new_shared_process (identity []) None)\<lparr>downstream := [Some 1],
                          receiver_count := 0\<rparr>,
                      1 \<mapsto> (new_shared_process (buffering\<lparr>user := [5]\<rparr>) (Some 0))\<lparr>receiver_count := 0,
                          process_running := True\<rparr>],
             scheduled = [1],
             log = [invoked 0 5 5, cts_called 0, cts_called 0, await_called 1 5], next_addr = 2\<rparr>"
  by (auto simp add: buffer_mid_def buffer_head_ran_eq identity_def
      buffering_def runtime_defs intro!: ext)

lemma buffer_chain_eq:
  "buffer_chain = \<lparr>heap = [0 \<mapsto> (new_shared_process (identity []) None)\<lparr>downstream := [Some 1]\<rparr>,
                      1 \<mapsto> (new_shared_process buffering (Some 0))\<lparr>downstream := [Some 2]\<rparr>,
                      2 \<mapsto> new_shared_process (identity []) (Some 1)],
             scheduled = [], log = [], next_addr = 3\<rparr>"
  by (auto simp add: buffer_chain_def buffer_piped_eq tail_rx_def runtime_defs intro!: ext)

lemma buffer_fed_eq:
  "buffer_fed = \<lparr>heap = [0 \<mapsto> (new_shared_process (identity []) None)\<lparr>downstream := [Some 1],
                          receiver_count := 0, process_running := True, process_suspend_count := 1\<rparr>,
                      1 \<mapsto> (new_shared_process buffering (Some 0))\<lparr>downstream := [Some 2],
                          receiver_count := 0, process_message_queue := [5], process_running := True\<rparr>,
                      2 \<mapsto> (new_shared_process (identity []) (Some 1))\<lparr>receiver_count := 0\<rparr>],
             scheduled = [1], log = [invoked 0 5 5, cts_called 0], next_addr = 3\<rparr>"
  by (auto simp add: buffer_fed_def buffer_chain_eq head_rx_def tail_rx_def third_rx_def identity_def
      buffering_def runtime_defs intro!: ext)

section \<open>The pipeline of a producer, an identity channel and a mapping receiver\<close>

subsection \<open>A thread left alone runs the step\<close>

lemma downstream_send: "look downstream p (send arg q s) = look downstream p s"
  by (auto simp: send_def send_locked_def put_def run_def Let_def split: option.splits)

lemma downstream_sender_call: "look downstream p (sender_call e v s) = look downstream p s"
  by (simp add: sender_call_def downstream_send del: look_simps split: option.splits)

lemma complete_finishing: "complete (finishing p) s = cts p s"
  by (subst complete.simps) (simp add: advance.simps split: sum.splits)

lemma complete_ending: "complete (ending p) s = task_done p s"
  by (subst complete.simps) (simp add: advance.simps split: sum.splits)

lemma complete_sending:
  "heap s p = Some sp \<Longrightarrow>
   complete (sending p v i k) s
     = cts p (snd (for_each_n (drop i (downstream sp)) k (\<lambda>e. sender_call e v) s))"
proof (induction k arbitrary: i s sp)
  case 0
  then show ?case
    by (subst complete.simps) (simp add: advance.simps complete_finishing)
next
  case (Suc k)
  show ?case
  proof (cases "drop i (downstream sp)")
    case Nil
    with Suc.prems show ?thesis
      by (subst complete.simps) (simp add: advance.simps complete_finishing)
  next
    case (Cons e es)
    from downstream_sender_call [of p e v s] Suc.prems
    obtain sp1 where sp1: "heap (sender_call e v s) p = Some sp1" "downstream sp1 = downstream sp"
      by (cases "heap (sender_call e v s) p") auto
    from Cons have "drop (Suc i) (downstream sp) = es"
      by (metis drop_Suc list.sel(3) tl_drop)
    with Suc.IH [OF sp1(1), of "Suc i"] sp1 Cons Suc.prems show ?thesis
      by (subst complete.simps) (simp add: advance.simps)
  qed
qed

lemma complete_snapshot: "complete (snapshot p v) s = broadcast_cts p v s"
proof (cases "heap s p")
  case None
  then show ?thesis
    by (subst complete.simps)
      (simp add: advance.simps broadcast_cts_def broadcast_def broadcast_begin_def)
next
  case (Some sp)
  let ?n = "length (downstream sp)"
  have first: "complete (snapshot p v) s = complete (asserting p v ?n) s"
    using Some by (subst complete.simps) (simp add: advance.simps)
  show ?thesis
  proof (cases "process_suspend_count sp = 0")
    case False
    with Some have "complete (asserting p v ?n) s = Inl broadcasting_while_suspended"
      by (subst complete.simps) (simp add: advance.simps)
    with Some False first show ?thesis
      by (simp add: broadcast_cts_def broadcast_def broadcast_begin_def)
  next
    case True
    let ?s = "put p (sp\<lparr>process_suspend_count := of_nat ?n + 1\<rparr>) s"
    from Some True have "complete (asserting p v ?n) s = complete (marking p v ?n) s"
      by (subst complete.simps) (simp add: advance.simps)
    also from Some have "\<dots> = complete (sending p v 0 ?n) ?s"
      by (subst complete.simps) (simp add: advance.simps)
    also have "\<dots> = cts p (snd (for_each_n (downstream sp) ?n (\<lambda>e. sender_call e v) ?s))"
      using complete_sending [of ?s p "sp\<lparr>process_suspend_count := of_nat ?n + 1\<rparr>" v 0 ?n]
      by simp
    finally show ?thesis
      using Some True first
      by (simp add: broadcast_cts_def broadcast_def broadcast_begin_def broadcast_send_def Let_def)
  qed
qed

lemma complete_starting: "complete (starting p) s = task p s"
proof (cases "heap s p")
  case None
  then show ?thesis
    by (subst complete.simps) (simp add: advance.simps task_def)
next
  case (Some sp)
  show ?thesis
  proof (cases "has_process_yield (process sp)")
    case True
    with Some show ?thesis
      by (subst complete.simps)
        (simp add: advance.simps task_def step_def map_sum_def split: sum.splits)
  next
    case False
    obtain message do_cts do_close sp1 where d: "dequeue_locked sp = ((message, do_cts, do_close), sp1)"
      by (metis surj_pair)
    have up: "upstream sp1 = upstream sp"
      using d by (auto simp: dequeue_locked_def split: list.splits)
    have inv: "complete (invoking p message) s1 =
        (case message of
           Some m \<Rightarrow> (case process_invoke p m s1 of None \<Rightarrow> Inl no_such_member
                      | Some (v, s2) \<Rightarrow> broadcast_cts p v s2)
         | None \<Rightarrow> task_done p s1)" for s1 :: "('a, 'b) system"
      by (subst complete.simps)
        (simp add: advance.simps complete_snapshot complete_ending split: option.splits)
    have "complete (holding p message do_cts) (put p sp1 s) =
        (case upstream_cts do_cts (upstream sp1) (put p sp1 s) of
           Inl e \<Rightarrow> Inl e
         | Inr s1 \<Rightarrow> complete (invoking p message) s1)"
      by (subst complete.simps) (simp add: advance.simps split: sum.splits)
    with Some False d inv show ?thesis
      by (subst complete.simps)
        (simp add: advance.simps task_def step_def step_no_yield_def split: sum.splits)
  qed
qed

subsection \<open>Its states and its moves\<close>

lemma built_eq:
  assumes "channel u empty_system = ((tx, rx), s0)"
    and "compose rx (plain_function f u) s0 = Inr ((rx1, r1), s1)"
  shows "s1 = two_stages (head_stage u [] False 0 1) (tail_stage f u [] False 0 1) [] []
       \<and> rx1 = \<lparr>r_p = Some 0, r_ready = False\<rparr> \<and> r1 = \<lparr>r_p = Some 1, r_ready = False\<rparr>"
  using assms
  by (auto simp: two_stages_def head_stage_def tail_stage_def plain_function_def identity_def
      runtime_defs intro!: ext)

lemma produce_eq:
  "sender_call (Some 0) v (two_stages (head_stage u q r sc rc) b sch lg) =
     two_stages (head_stage u (q @ [v]) (r \<or> rc = 0) sc rc) b
       (if rc = 0 \<and> \<not> r then sch @ [0] else sch) lg"
  by (auto simp: two_stages_def head_stage_def sender_call_def send_def send_locked_def put_def
      run_def Let_def intro!: ext)

lemma tail_produce_eq:
  "sender_call (Some 1) v (two_stages a (tail_stage f u q r sc rc) sch lg) =
     two_stages a (tail_stage f u (q @ [v]) (r \<or> rc = 0) sc rc)
       (if rc = 0 \<and> \<not> r then sch @ [1] else sch) lg"
  by (auto simp: two_stages_def tail_stage_def sender_call_def send_def send_locked_def put_def
      run_def Let_def intro!: ext)

lemma head_ready_eq:
  "remove_receiver 0 (two_stages (head_stage u q r sc 1) b sch lg) =
     two_stages (head_stage u q (r \<or> q \<noteq> []) sc 0) b
       (if q \<noteq> [] \<and> \<not> r then sch @ [0] else sch) lg"
  by (auto simp: two_stages_def head_stage_def remove_receiver_def remove_receiver_locked_def
      identity_def put_def run_def Let_def intro!: ext)

lemma tail_ready_eq:
  "remove_receiver 1 (two_stages a (tail_stage f u q r sc 1) sch lg) =
     two_stages a (tail_stage f u q (r \<or> q \<noteq> []) sc 0)
       (if q \<noteq> [] \<and> \<not> r then sch @ [1] else sch) lg"
  by (auto simp: two_stages_def tail_stage_def remove_receiver_def remove_receiver_locked_def
      plain_function_def put_def run_def Let_def intro!: ext)

lemma set_ready_eq:
  "set_ready x s = (x\<lparr>r_ready := True\<rparr>,
     if r_ready x then s else (case r_p x of None \<Rightarrow> s | Some p \<Rightarrow> remove_receiver p s))"
  by (simp add: set_ready_def split: option.splits)

lemma head_cts_eq:
  "cts 0 (two_stages (head_stage u q True sc rc) b sch lg) =
     Inr (two_stages (head_stage u q (sc \<noteq> 1 \<or> q \<noteq> []) (sc - 1) rc) b
            (if sc = 1 \<and> q \<noteq> [] then sch @ [0] else sch) (lg @ [cts_called 0]))"
  by (auto simp: two_stages_def head_stage_def identity_def cts_def cts_locked_def put_def emit_def
      run_def get_process_state_def Let_def intro!: ext)

lemma tail_cts_eq:
  "cts 1 (two_stages a (tail_stage f u q True sc rc) sch lg) =
     Inr (two_stages a (tail_stage f u q (sc \<noteq> 1 \<or> q \<noteq> []) (sc - 1) rc)
            (if sc = 1 \<and> q \<noteq> [] then sch @ [1] else sch) (lg @ [cts_called 1]))"
  by (auto simp: two_stages_def tail_stage_def plain_function_def cts_def cts_locked_def put_def
      emit_def run_def get_process_state_def Let_def intro!: ext)

lemma head_starting:
  "advance (starting 0) (two_stages (head_stage u (m # q) r sc rc) b sch lg) =
     Inr (Some (holding 0 (Some m) (q = [])), two_stages (head_stage u q r sc rc) b sch lg)"
  by (auto simp: advance.simps two_stages_def head_stage_def identity_def has_process_yield_def
      dequeue_locked_def put_def intro!: ext)

lemma head_holding:
  "advance (holding 0 msg c) (two_stages (head_stage u q r sc rc) b sch lg) =
     Inr (Some (invoking 0 msg), two_stages (head_stage u q r sc rc) b sch lg)"
  by (simp add: advance.simps two_stages_def head_stage_def upstream_cts_def)

lemma head_invoking:
  "advance (invoking 0 (Some m)) (two_stages (head_stage u q r sc rc) b sch lg) =
     Inr (Some (snapshot 0 m), two_stages (head_stage u q r sc rc) b sch (lg @ [invoked 0 m m]))"
  by (auto simp: advance.simps two_stages_def head_stage_def identity_def process_invoke_def
      put_def emit_def intro!: ext)

lemma head_snapshot:
  "advance (snapshot 0 v) (two_stages (head_stage u q r sc rc) b sch lg) =
     Inr (Some (asserting 0 v 1), two_stages (head_stage u q r sc rc) b sch lg)"
  by (simp add: advance.simps two_stages_def head_stage_def)

lemma head_asserting:
  "advance (asserting 0 v n) (two_stages (head_stage u q r 0 rc) b sch lg) =
     Inr (Some (marking 0 v n), two_stages (head_stage u q r 0 rc) b sch lg)"
  by (simp add: advance.simps two_stages_def head_stage_def)

lemma head_marking:
  "advance (marking 0 v 1) (two_stages (head_stage u q r sc rc) b sch lg) =
     Inr (Some (sending 0 v 0 1), two_stages (head_stage u q r 2 rc) b sch lg)"
  by (auto simp: advance.simps two_stages_def head_stage_def put_def intro!: ext)

lemma head_sending:
  "advance (sending 0 v 0 (Suc k))
       (two_stages (head_stage u q r sc rc) (tail_stage f u qb rb sb rcb) sch lg) =
     Inr (Some (sending 0 v (Suc 0) k),
          two_stages (head_stage u q r sc rc) (tail_stage f u (qb @ [v]) (rb \<or> rcb = 0) sb rcb)
            (if rcb = 0 \<and> \<not> rb then sch @ [1] else sch) lg)"
proof -
  have "heap (two_stages (head_stage u q r sc rc) (tail_stage f u qb rb sb rcb) sch lg) 0
      = Some (head_stage u q r sc rc)"
    by (simp add: two_stages_def)
  then show ?thesis
    by (simp add: advance.simps head_stage_def tail_produce_eq [unfolded One_nat_def])
qed

lemma sending_done: "advance (sending p v i 0) s = Inr (Some (finishing p), s)"
  by (simp add: advance.simps)

lemma head_finishing:
  "advance (finishing 0) (two_stages (head_stage u q True sc rc) b sch lg) =
     Inr (None, two_stages (head_stage u q (sc \<noteq> 1 \<or> q \<noteq> []) (sc - 1) rc) b
            (if sc = 1 \<and> q \<noteq> [] then sch @ [0] else sch) (lg @ [cts_called 0]))"
  by (simp add: advance.simps head_cts_eq)

lemma tail_starting:
  "advance (starting 1) (two_stages a (tail_stage f u (m # q) r sc rc) sch lg) =
     Inr (Some (holding 1 (Some m) (q = [])), two_stages a (tail_stage f u q r sc rc) sch lg)"
  by (auto simp: advance.simps two_stages_def tail_stage_def plain_function_def
      has_process_yield_def dequeue_locked_def put_def intro!: ext)

lemma tail_holding:
  "advance (holding 1 msg True)
       (two_stages (head_stage u q True sc rc) (tail_stage f u qb rb sb rcb) sch lg) =
     Inr (Some (invoking 1 msg),
          two_stages (head_stage u q (sc \<noteq> 1 \<or> q \<noteq> []) (sc - 1) rc) (tail_stage f u qb rb sb rcb)
            (if sc = 1 \<and> q \<noteq> [] then sch @ [0] else sch) (lg @ [cts_called 0]))"
proof -
  have "heap (two_stages (head_stage u q True sc rc) (tail_stage f u qb rb sb rcb) sch lg) 1
      = Some (tail_stage f u qb rb sb rcb)"
    by (simp add: two_stages_def)
  moreover have "upstream (tail_stage f u qb rb sb rcb) = Some 0"
    by (simp add: tail_stage_def)
  ultimately show ?thesis
    by (simp add: advance.simps upstream_cts_def head_cts_eq)
qed

lemma tail_invoking:
  "advance (invoking 1 (Some m)) (two_stages a (tail_stage f u q r sc rc) sch lg) =
     Inr (Some (snapshot 1 (f m)), two_stages a (tail_stage f u q r sc rc) sch (lg @ [invoked 1 m (f m)]))"
  by (auto simp: advance.simps two_stages_def tail_stage_def plain_function_def process_invoke_def
      put_def emit_def intro!: ext)

lemma tail_snapshot:
  "advance (snapshot 1 v) (two_stages a (tail_stage f u q r sc rc) sch lg) =
     Inr (Some (asserting 1 v 0), two_stages a (tail_stage f u q r sc rc) sch lg)"
  by (simp add: advance.simps two_stages_def tail_stage_def)

lemma tail_asserting:
  "advance (asserting 1 v n) (two_stages a (tail_stage f u q r 0 rc) sch lg) =
     Inr (Some (marking 1 v n), two_stages a (tail_stage f u q r 0 rc) sch lg)"
  by (simp add: advance.simps two_stages_def tail_stage_def)

lemma tail_marking:
  "advance (marking 1 v 0) (two_stages a (tail_stage f u q r sc rc) sch lg) =
     Inr (Some (sending 1 v 0 0), two_stages a (tail_stage f u q r 1 rc) sch lg)"
  by (auto simp: advance.simps two_stages_def tail_stage_def put_def intro!: ext)

lemma tail_finishing:
  "advance (finishing 1) (two_stages a (tail_stage f u q True sc rc) sch lg) =
     Inr (None, two_stages a (tail_stage f u q (sc \<noteq> 1 \<or> q \<noteq> []) (sc - 1) rc)
            (if sc = 1 \<and> q \<noteq> [] then sch @ [1] else sch) (lg @ [cts_called 1]))"
  by (simp add: advance.simps tail_cts_eq [unfolded One_nat_def])

lemma head_task_eq:
  "task 0 (two_stages (head_stage u (m # ms) True 0 rc) (tail_stage f u [] False 0 rcb) sch lg) =
     Inr (two_stages (head_stage u ms True 1 rc) (tail_stage f u [m] (rcb = 0) 0 rcb)
            (if rcb = 0 then sch @ [1] else sch) (lg @ [invoked 0 m m, cts_called 0]))"
  by (auto simp: two_stages_def head_stage_def tail_stage_def plain_function_def identity_def
      runtime_defs intro!: ext)

lemma tail_task_eq:
  "task 1 (two_stages (head_stage u qa True 1 rc) (tail_stage f u [m] True 0 rcb) sch lg) =
     Inr (two_stages (head_stage u qa (qa \<noteq> []) 0 rc) (tail_stage f u [] False 0 rcb)
            (if qa \<noteq> [] then sch @ [0] else sch)
            (lg @ [cts_called 0, invoked 1 m (f m), cts_called 1]))"
  by (auto simp: two_stages_def head_stage_def tail_stage_def plain_function_def identity_def
      runtime_defs intro!: ext)

subsection \<open>What holds in every state\<close>

lemma observed_append [simp]: "observed p (xs @ ys) = observed p xs @ observed p ys"
  by (simp add: observed_def)

lemma observed_Nil [simp]: "observed p [] = []"
  by (simp add: observed_def)

lemma observed_Cons [simp]: "observed p (e # es) = result_at p e @ observed p es"
  by (simp add: observed_def)

lemma tokens_append [simp]: "tokens p (xs @ ys) = tokens p xs + tokens p ys"
  by (simp add: tokens_def)

lemma tokens_Nil [simp]: "tokens p [] = 0"
  by (simp add: tokens_def)

lemma tokens_Cons [simp]: "tokens p (e # es) = (if cts_at p e then 1 else 0) + tokens p es"
  by (simp add: tokens_def)

lemma begun_thread: "begun pa \<Longrightarrow> pa \<noteq> None"
  by (cases pa) auto

lemma waiting_begun:
  assumes "shape p d pa" and "in_hand pa = []" and "unsent pa = []" and "\<not> arrived pa"
  shows "pa = None \<or> begun pa"
proof (cases pa)
  case None
  then show ?thesis by simp
next
  case (Some t)
  with assms show ?thesis
    by (cases t) auto
qed

lemma balanced_waiting:
  assumes "balanced f vs hx hr qa ra sa qb rb sb sch lg pa pb" and "qb \<noteq> [] \<or> taking pb"
  shows "pa = None \<or> begun pa"
proof -
  from assms have "shape 0 1 pa" and "in_hand pa = []" and "unsent pa = []" and "\<not> arrived pa"
    by (simp_all add: balanced_def)
  then show ?thesis
    by (rule waiting_begun)
qed

lemma balanced_head_starting:
  assumes "balanced f vs hx hr qa ra sa qb rb sb sch lg (Some (starting 0)) pb"
  shows "\<exists>m q. qa = m # q
       \<and> balanced f vs hx hr q ra sa qb rb sb sch lg (Some (holding 0 (Some m) (q = []))) pb"
proof -
  from assms have "qa \<noteq> []"
    by (simp add: balanced_def)
  then obtain m q where qa: "qa = m # q"
    by (cases qa) auto
  with assms have "balanced f vs hx hr q ra sa qb rb sb sch lg (Some (holding 0 (Some m) (q = []))) pb"
    unfolding balanced_def by auto
  with qa show ?thesis
    by blast
qed

lemma balanced_head_holding:
  assumes "balanced f vs hx hr qa ra sa qb rb sb sch lg (Some (holding 0 msg c)) pb"
  shows "balanced f vs hx hr qa ra sa qb rb sb sch lg (Some (invoking 0 msg)) pb"
  using assms unfolding balanced_def by auto

lemma balanced_head_invoking:
  assumes "balanced f vs hx hr qa ra sa qb rb sb sch lg (Some (invoking 0 msg)) pb"
  shows "\<exists>m. msg = Some m
       \<and> balanced f vs hx hr qa ra sa qb rb sb sch (lg @ [invoked 0 m m]) (Some (snapshot 0 m)) pb"
  using assms unfolding balanced_def by auto

lemma balanced_head_snapshot:
  assumes "balanced f vs hx hr qa ra sa qb rb sb sch lg (Some (snapshot 0 v)) pb"
  shows "balanced f vs hx hr qa ra sa qb rb sb sch lg (Some (asserting 0 v 1)) pb"
  using assms unfolding balanced_def by auto

lemma balanced_head_asserting:
  assumes "balanced f vs hx hr qa ra sa qb rb sb sch lg (Some (asserting 0 v n)) pb"
  shows "sa = 0 \<and> balanced f vs hx hr qa ra sa qb rb sb sch lg (Some (marking 0 v n)) pb"
  using assms unfolding balanced_def by auto

lemma balanced_head_marking:
  assumes "balanced f vs hx hr qa ra sa qb rb sb sch lg (Some (marking 0 v n)) pb"
  shows "n = 1 \<and> balanced f vs hx hr qa ra 2 qb rb sb sch lg (Some (sending 0 v 0 1)) pb"
  using assms unfolding balanced_def by auto

lemma balanced_head_sending:
  assumes "balanced f vs hx hr qa ra sa qb rb sb sch lg (Some (sending 0 v i k)) pb"
  shows "(i = 0 \<and> k = Suc 0
          \<and> balanced f vs hx hr qa ra sa (qb @ [v]) (rb \<or> hr = 0) sb
              (if hr = 0 \<and> \<not> rb then sch @ [1] else sch) lg (Some (sending 0 v (Suc 0) 0)) pb)
       \<or> (i = Suc 0 \<and> k = 0 \<and> balanced f vs hx hr qa ra sa qb rb sb sch lg (Some (finishing 0)) pb)"
proof -
  from assms have "i + k = 1"
    by (simp add: balanced_def)
  then consider "i = 0" "k = 1" | "i = 1" "k = 0"
    by (cases i) auto
  then show ?thesis
  proof cases
    case 1
    with assms show ?thesis
      unfolding balanced_def by auto
  next
    case 2
    with assms show ?thesis
      unfolding balanced_def by auto
  qed
qed

lemma balanced_head_finishing:
  assumes "balanced f vs hx hr qa ra sa qb rb sb sch lg (Some (finishing 0)) pb"
  shows "ra \<and> balanced f vs hx hr qa (sa \<noteq> 1 \<or> qa \<noteq> []) (sa - 1) qb rb sb
           (if sa = 1 \<and> qa \<noteq> [] then sch @ [0] else sch) (lg @ [cts_called 0]) None pb"
  using assms unfolding balanced_def by auto

lemma balanced_tail_starting:
  assumes "balanced f vs hx hr qa ra sa qb rb sb sch lg pa (Some (starting 1))"
  shows "\<exists>m. qb = [m]
       \<and> balanced f vs hx hr qa ra sa [] rb sb sch lg pa (Some (holding 1 (Some m) True))"
proof -
  from assms have "qb \<noteq> []" and "length qb \<le> 1"
    by (simp_all add: balanced_def)
  then obtain m where qb: "qb = [m]"
    by (cases qb) auto
  with assms have "balanced f vs hx hr qa ra sa [] rb sb sch lg pa (Some (holding 1 (Some m) True))"
    unfolding balanced_def by auto
  with qb show ?thesis
    by blast
qed

lemma balanced_tail_holding:
  assumes "balanced f vs hx hr qa ra sa qb rb sb sch lg pa (Some (holding 1 msg c))"
  shows "c \<and> ra \<and> balanced f vs hx hr qa (sa \<noteq> 1 \<or> qa \<noteq> []) (sa - 1) qb rb sb
           (if sa = 1 \<and> qa \<noteq> [] then sch @ [0] else sch) (lg @ [cts_called 0]) pa
           (Some (invoking 1 msg))"
proof -
  have "qb \<noteq> [] \<or> taking (Some (holding 1 msg c))"
    by simp
  from assms balanced_waiting [OF assms this] begun_thread [of pa] show ?thesis
    unfolding balanced_def by auto
qed

lemma balanced_tail_invoking:
  assumes "balanced f vs hx hr qa ra sa qb rb sb sch lg pa (Some (invoking 1 msg))"
  shows "\<exists>m. msg = Some m
       \<and> balanced f vs hx hr qa ra sa qb rb sb sch (lg @ [invoked 1 m (f m)]) pa
           (Some (snapshot 1 (f m)))"
  using assms begun_thread [of pa] unfolding balanced_def by auto

lemma balanced_tail_snapshot:
  assumes "balanced f vs hx hr qa ra sa qb rb sb sch lg pa (Some (snapshot 1 v))"
  shows "balanced f vs hx hr qa ra sa qb rb sb sch lg pa (Some (asserting 1 v 0))"
  using assms begun_thread [of pa] unfolding balanced_def by auto

lemma balanced_tail_asserting:
  assumes "balanced f vs hx hr qa ra sa qb rb sb sch lg pa (Some (asserting 1 v n))"
  shows "sb = 0 \<and> balanced f vs hx hr qa ra sa qb rb sb sch lg pa (Some (marking 1 v n))"
  using assms begun_thread [of pa] unfolding balanced_def by auto

lemma balanced_tail_marking:
  assumes "balanced f vs hx hr qa ra sa qb rb sb sch lg pa (Some (marking 1 v n))"
  shows "n = 0 \<and> balanced f vs hx hr qa ra sa qb rb 1 sch lg pa (Some (sending 1 v 0 0))"
  using assms begun_thread [of pa] unfolding balanced_def by auto

lemma balanced_tail_sending:
  assumes "balanced f vs hx hr qa ra sa qb rb sb sch lg pa (Some (sending 1 v i k))"
  shows "i = 0 \<and> k = 0 \<and> balanced f vs hx hr qa ra sa qb rb sb sch lg pa (Some (finishing 1))"
  using assms begun_thread [of pa] unfolding balanced_def by auto

lemma balanced_tail_finishing:
  assumes "balanced f vs hx hr qa ra sa qb rb sb sch lg pa (Some (finishing 1))"
  shows "rb \<and> balanced f vs hx hr qa ra sa qb (sb \<noteq> 1 \<or> qb \<noteq> []) (sb - 1)
           (if sb = 1 \<and> qb \<noteq> [] then sch @ [1] else sch) (lg @ [cts_called 1]) pa None"
  using assms begun_thread [of pa] unfolding balanced_def by auto

lemma balanced_built: "balanced f [] 1 1 [] False 0 [] False 0 [] [] None None"
  by (simp add: balanced_def)

lemma balanced_produced:
  assumes "balanced f vs hx hr qa ra sa qb rb sb sch lg pa pb"
  shows "balanced f (vs @ [v]) hx hr (qa @ [v]) (ra \<or> hx = 0) sa qb rb sb
           (if hx = 0 \<and> \<not> ra then sch @ [0] else sch) lg pa pb"
  using assms begun_thread [of pa] unfolding balanced_def by auto

lemma balanced_head_ready:
  assumes "balanced f vs 1 hr qa ra sa qb rb sb sch lg pa pb"
  shows "balanced f vs 0 hr qa (ra \<or> qa \<noteq> []) sa qb rb sb
           (if qa \<noteq> [] \<and> \<not> ra then sch @ [0] else sch) lg pa pb"
  using assms begun_thread [of pa] unfolding balanced_def by auto

lemma balanced_tail_ready:
  assumes "balanced f vs hx 1 qa ra sa qb rb sb sch lg pa pb"
  shows "balanced f vs hx 0 qa ra sa qb (rb \<or> qb \<noteq> []) sb
           (if qb \<noteq> [] \<and> \<not> rb then sch @ [1] else sch) lg pa pb"
  using assms begun_thread [of pa] begun_thread [of pb] unfolding balanced_def by auto

lemma taken_out:
  assumes "distinct xs" and "i < length xs"
  shows "distinct (take i xs @ drop (Suc i) xs)"
    and "set (take i xs @ drop (Suc i) xs) = set xs - {xs ! i}"
proof -
  from assms(2) have xs: "xs = take i xs @ xs ! i # drop (Suc i) xs"
    by (rule id_take_nth_drop)
  with assms(1) have d: "distinct (take i xs @ xs ! i # drop (Suc i) xs)"
    by simp
  then show "distinct (take i xs @ drop (Suc i) xs)"
    by simp
  from d have "xs ! i \<notin> set (take i xs @ drop (Suc i) xs)"
    by simp
  moreover have "set xs = insert (xs ! i) (set (take i xs @ drop (Suc i) xs))"
    by (subst xs) simp
  ultimately show "set (take i xs @ drop (Suc i) xs) = set xs - {xs ! i}"
    by blast
qed

lemma balanced_dispatched:
  assumes "balanced f vs hx hr qa ra sa qb rb sb sch lg pa pb" and "i < length sch"
  shows "(sch ! i = 0 \<and> pa = None
          \<and> balanced f vs hx hr qa ra sa qb rb sb (take i sch @ drop (Suc i) sch) lg
              (Some (starting 0)) pb)
       \<or> (sch ! i = 1 \<and> pb = None
          \<and> balanced f vs hx hr qa ra sa qb rb sb (take i sch @ drop (Suc i) sch) lg pa
              (Some (starting 1)))"
proof -
  let ?sch = "take i sch @ drop (Suc i) sch"
  from assms have d: "distinct sch" and sub: "set sch \<subseteq> {0, 1}"
    by (simp_all add: balanced_def)
  note out = taken_out [OF d assms(2)]
  from assms(2) have mem: "sch ! i \<in> set sch"
    by simp
  with sub consider (head) "sch ! i = 0" | (tail) "sch ! i = 1"
    by auto
  then show ?thesis
  proof cases
    case head
    with mem have m: "0 \<in> set sch"
      by simp
    with assms(1) have pa: "pa = None"
      unfolding balanced_def by auto
    with assms(1) m have sa: "sa = 0"
      unfolding balanced_def by blast
    from assms(1) pa have "sa = (if qb \<noteq> [] \<or> taking pb then 1 else 0)"
      unfolding balanced_def by simp
    with sa have quiet: "qb = []" "\<not> taking pb"
      by (simp_all split: if_splits)
    from out head have s0: "0 \<notin> set ?sch" and s1: "1 \<in> set ?sch \<longleftrightarrow> 1 \<in> set sch"
      by auto
    from out sub have sub': "set ?sch \<subseteq> {0, 1}"
      by auto
    have "balanced f vs hx hr qa ra sa qb rb sb ?sch lg (Some (starting 0)) pb"
      using assms(1) pa sa m s0 s1 sub' out(1) quiet unfolding balanced_def by auto
    with head pa show ?thesis
      by simp
  next
    case tail
    with mem have m: "1 \<in> set sch"
      by simp
    with assms(1) have pb: "pb = None"
      unfolding balanced_def by auto
    from out tail have s1: "1 \<notin> set ?sch" and s0: "0 \<in> set ?sch \<longleftrightarrow> 0 \<in> set sch"
      by auto
    from out sub have sub': "set ?sch \<subseteq> {0, 1}"
      by auto
    have "balanced f vs hx hr qa ra sa qb rb sb ?sch lg pa (Some (starting 1))"
      using assms(1) pb m s0 s1 sub' out(1) begun_thread [of pa] unfolding balanced_def
      by (auto split: if_splits)
    with tail pb show ?thesis
      by simp
  qed
qed

lemma balanced_idle:
  assumes "balanced f vs hx hr qa ra sa qb rb sb sch lg None None"
  shows "tokens 0 lg = length (observed 0 lg) + length (observed 1 lg)"
    and "observed 1 lg @ map f qb @ map f qa = map f vs"
    and "observed 0 lg @ qa = vs"
    and "sch = [] \<Longrightarrow> hx = 0 \<Longrightarrow> hr = 0 \<Longrightarrow> qa = [] \<and> qb = []"
proof -
  from assms show "tokens 0 lg = length (observed 0 lg) + length (observed 1 lg)"
    and "observed 1 lg @ map f qb @ map f qa = map f vs"
    and "observed 0 lg @ qa = vs"
    by (simp_all add: balanced_def)
  assume q: "sch = []" "hx = 0" "hr = 0"
  from assms have b: "\<not> rb \<longrightarrow> qb = [] \<or> hr \<noteq> 0" "1 \<in> set sch \<longleftrightarrow> rb"
    by (simp_all add: balanced_def)
  with q have qb: "qb = []"
    by simp
  from assms have "sa = (if qb \<noteq> [] then 1 else 0)"
    by (simp add: balanced_def)
  with qb have sa: "sa = 0"
    by simp
  from assms have "sa = 0 \<longrightarrow> (0 \<in> set sch \<longleftrightarrow> ra) \<and> (\<not> ra \<longrightarrow> qa = [] \<or> hx \<noteq> 0)"
    by (simp add: balanced_def)
  with sa q have "qa = []"
    by simp
  with qb show "qa = [] \<and> qb = []"
    by simp
qed

subsection \<open>Every state of the pipeline is balanced\<close>

lemma flow_invI:
  assumes "r_p rx = Some 0" and "r_p r = Some 1"
    and "distinct ts" and "set ts = set_option pa \<union> set_option pb"
    and "balanced f vs (held rx) (held r) qa ra sa qb rb sb sch lg pa pb"
  shows "flow_inv f u vs rx r
           (two_stages (head_stage u qa ra sa (held rx)) (tail_stage f u qb rb sb (held r)) sch lg) ts"
  unfolding flow_inv_def using assms by blast

lemma flow_invE:
  assumes "flow_inv f u vs rx r s ts"
  obtains qa ra sa qb rb sb sch lg pa pb where
    "s = two_stages (head_stage u qa ra sa (held rx)) (tail_stage f u qb rb sb (held r)) sch lg"
    and "r_p rx = Some 0" and "r_p r = Some 1"
    and "distinct ts" and "set ts = set_option pa \<union> set_option pb"
    and "balanced f vs (held rx) (held r) qa ra sa qb rb sb sch lg pa pb"
  using assms unfolding flow_inv_def by blast

lemma shape_apart:
  assumes "shape 0 d pa" and "shape 1 e pb" and "pa = pb"
  shows "pa = None"
proof (cases pa)
  case None
  then show ?thesis by simp
next
  case (Some t)
  with assms show ?thesis
    by (cases t) auto
qed

lemma pool_head:
  assumes "distinct ts" and "set ts = set_option (Some t) \<union> set_option pb"
    and "Some t \<noteq> pb" and "pa = None \<or> pa \<noteq> pb"
  shows "distinct (case pa of None \<Rightarrow> remove1 t ts | Some t2 \<Rightarrow> t2 # remove1 t ts)
       \<and> set (case pa of None \<Rightarrow> remove1 t ts | Some t2 \<Rightarrow> t2 # remove1 t ts)
           = set_option pa \<union> set_option pb"
proof -
  from assms(1) have "set (remove1 t ts) = set ts - {t}"
    by (rule set_remove1_eq)
  with assms(2,3) have rest: "set (remove1 t ts) = set_option pb"
    by (cases pb) auto
  from assms(1) have "distinct (remove1 t ts)"
    by simp
  with rest assms(4) show ?thesis
    by (cases pa) auto
qed

lemma pool_tail:
  assumes "distinct ts" and "set ts = set_option pa \<union> set_option (Some t)"
    and "pa \<noteq> Some t" and "pb = None \<or> pa \<noteq> pb"
  shows "distinct (case pb of None \<Rightarrow> remove1 t ts | Some t2 \<Rightarrow> t2 # remove1 t ts)
       \<and> set (case pb of None \<Rightarrow> remove1 t ts | Some t2 \<Rightarrow> t2 # remove1 t ts)
           = set_option pa \<union> set_option pb"
proof -
  from assms(1) have "set (remove1 t ts) = set ts - {t}"
    by (rule set_remove1_eq)
  with assms(2,3) have rest: "set (remove1 t ts) = set_option pa"
    by (cases pa) auto
  from assms(1) have "distinct (remove1 t ts)"
    by simp
  with rest assms(4) show ?thesis
    by (cases pb) auto
qed

lemma flow_step_head:
  assumes "r_p rx = Some 0" and "r_p r = Some 1"
    and "distinct ts" and "set ts = set_option (Some t) \<union> set_option pb"
    and "shape 0 1 (Some t)"
    and "advance t s = Inr (pa, two_stages (head_stage u qa ra sa (held rx))
           (tail_stage f u qb rb sb (held r)) sch lg)"
    and "balanced f vs (held rx) (held r) qa ra sa qb rb sb sch lg pa pb"
  shows "\<exists>t1 s1. advance t s = Inr (t1, s1)
       \<and> flow_inv f u vs rx r s1 (case t1 of None \<Rightarrow> remove1 t ts | Some t2 \<Rightarrow> t2 # remove1 t ts)"
proof -
  from assms(7) have sh: "shape 0 1 pa" "shape 1 0 pb"
    by (simp_all add: balanced_def)
  from shape_apart [OF assms(5) sh(2)] have "Some t \<noteq> pb"
    by auto
  moreover from shape_apart [OF sh] have "pa = None \<or> pa \<noteq> pb"
    by auto
  ultimately have pool:
    "distinct (case pa of None \<Rightarrow> remove1 t ts | Some t2 \<Rightarrow> t2 # remove1 t ts)
     \<and> set (case pa of None \<Rightarrow> remove1 t ts | Some t2 \<Rightarrow> t2 # remove1 t ts)
         = set_option pa \<union> set_option pb"
    using assms(3,4) by (intro pool_head)
  have "flow_inv f u vs rx r
      (two_stages (head_stage u qa ra sa (held rx)) (tail_stage f u qb rb sb (held r)) sch lg)
      (case pa of None \<Rightarrow> remove1 t ts | Some t2 \<Rightarrow> t2 # remove1 t ts)"
    using assms(1,2) pool assms(7) by (intro flow_invI) simp_all
  with assms(6) show ?thesis
    by blast
qed

lemma flow_step_tail:
  assumes "r_p rx = Some 0" and "r_p r = Some 1"
    and "distinct ts" and "set ts = set_option pa \<union> set_option (Some t)"
    and "shape 1 0 (Some t)"
    and "advance t s = Inr (pb, two_stages (head_stage u qa ra sa (held rx))
           (tail_stage f u qb rb sb (held r)) sch lg)"
    and "balanced f vs (held rx) (held r) qa ra sa qb rb sb sch lg pa pb"
  shows "\<exists>t1 s1. advance t s = Inr (t1, s1)
       \<and> flow_inv f u vs rx r s1 (case t1 of None \<Rightarrow> remove1 t ts | Some t2 \<Rightarrow> t2 # remove1 t ts)"
proof -
  from assms(7) have sh: "shape 0 1 pa" "shape 1 0 pb"
    by (simp_all add: balanced_def)
  from shape_apart [OF sh(1) assms(5)] have "pa \<noteq> Some t"
    by auto
  moreover from shape_apart [OF sh] have "pb = None \<or> pa \<noteq> pb"
    by auto
  ultimately have pool:
    "distinct (case pb of None \<Rightarrow> remove1 t ts | Some t2 \<Rightarrow> t2 # remove1 t ts)
     \<and> set (case pb of None \<Rightarrow> remove1 t ts | Some t2 \<Rightarrow> t2 # remove1 t ts)
         = set_option pa \<union> set_option pb"
    using assms(3,4) by (intro pool_tail)
  have "flow_inv f u vs rx r
      (two_stages (head_stage u qa ra sa (held rx)) (tail_stage f u qb rb sb (held r)) sch lg)
      (case pb of None \<Rightarrow> remove1 t ts | Some t2 \<Rightarrow> t2 # remove1 t ts)"
    using assms(1,2) pool assms(7) by (intro flow_invI) simp_all
  with assms(6) show ?thesis
    by blast
qed

lemma flow_inv_advanced:
  assumes "flow_inv f u vs rx r s ts" and "t \<in> set ts"
  shows "\<exists>t1 s1. advance t s = Inr (t1, s1)
       \<and> flow_inv f u vs rx r s1 (case t1 of None \<Rightarrow> remove1 t ts | Some t2 \<Rightarrow> t2 # remove1 t ts)"
  using assms(1)
proof (rule flow_invE)
  fix qa ra sa qb rb sb sch lg pa pb
  assume s: "s = two_stages (head_stage u qa ra sa (held rx)) (tail_stage f u qb rb sb (held r)) sch lg"
    and ptr: "r_p rx = Some 0" "r_p r = Some 1"
    and pool: "distinct ts" "set ts = set_option pa \<union> set_option pb"
    and g: "balanced f vs (held rx) (held r) qa ra sa qb rb sb sch lg pa pb"
  from g have sh: "shape 0 1 pa" "shape 1 0 pb"
    by (simp_all add: balanced_def)
  from assms(2) pool consider (head) "pa = Some t" | (tail) "pb = Some t"
    by (cases pa; cases pb) auto
  then show ?thesis
  proof cases
    case head
    note step = flow_step_head [OF ptr pool(1) pool(2) [unfolded head] sh(1) [unfolded head]]
    note g0 = g [unfolded head]
    show ?thesis
    proof (cases t)
      case (starting p)
      with sh head have t: "t = starting 0"
        by simp
      from balanced_head_starting [OF g0 [unfolded t]] obtain m q where qa: "qa = m # q"
        and g1: "balanced f vs (held rx) (held r) q ra sa qb rb sb sch lg (Some (holding 0 (Some m) (q = []))) pb"
        by blast
      show ?thesis
        by (rule step [OF _ g1]) (simp only: s t qa head_starting)
    next
      case (holding p msg c)
      with sh head have t: "t = holding 0 msg c"
        by simp
      note g1 = balanced_head_holding [OF g0 [unfolded t]]
      show ?thesis
        by (rule step [OF _ g1]) (simp only: s t head_holding)
    next
      case (invoking p msg)
      with sh head have t: "t = invoking 0 msg"
        by simp
      from balanced_head_invoking [OF g0 [unfolded t]] obtain m where msg: "msg = Some m"
        and g1: "balanced f vs (held rx) (held r) qa ra sa qb rb sb sch (lg @ [invoked 0 m m])
                   (Some (snapshot 0 m)) pb"
        by blast
      show ?thesis
        by (rule step [OF _ g1]) (simp only: s t msg head_invoking)
    next
      case (snapshot p v)
      with sh head have t: "t = snapshot 0 v"
        by simp
      note g1 = balanced_head_snapshot [OF g0 [unfolded t]]
      show ?thesis
        by (rule step [OF _ g1]) (simp only: s t head_snapshot)
    next
      case (asserting p v n)
      with sh head have t: "t = asserting 0 v n"
        by simp
      note both = balanced_head_asserting [OF g0 [unfolded t]]
      note sa = both [THEN conjunct1] and g1 = both [THEN conjunct2]
      have "advance t s = Inr (Some (marking 0 v n), s)"
        unfolding s t sa by (rule head_asserting)
      then show ?thesis
        unfolding s by (rule step [OF _ g1])
    next
      case (marking p v n)
      with sh head have t: "t = marking 0 v n"
        by simp
      from balanced_head_marking [OF g0 [unfolded t]] have n: "n = 1"
        and g1: "balanced f vs (held rx) (held r) qa ra 2 qb rb sb sch lg (Some (sending 0 v 0 1)) pb"
        by simp_all
      show ?thesis
        by (rule step [OF _ g1]) (simp only: s t n head_marking)
    next
      case (sending p v i n)
      with sh head have t: "t = sending 0 v i n"
        by simp
      from balanced_head_sending [OF g0 [unfolded t]]
      consider (first) "i = 0" "n = Suc 0"
          "balanced f vs (held rx) (held r) qa ra sa (qb @ [v]) (rb \<or> held r = 0) sb
             (if held r = 0 \<and> \<not> rb then sch @ [1] else sch) lg (Some (sending 0 v (Suc 0) 0)) pb"
        | (last) "i = Suc 0" "n = 0"
          "balanced f vs (held rx) (held r) qa ra sa qb rb sb sch lg (Some (finishing 0)) pb"
        by blast
      then show ?thesis
      proof cases
        case first
        have "advance t s = Inr (Some (sending 0 v (Suc 0) 0),
            two_stages (head_stage u qa ra sa (held rx))
              (tail_stage f u (qb @ [v]) (rb \<or> held r = 0) sb (held r))
              (if held r = 0 \<and> \<not> rb then sch @ [1] else sch) lg)"
          unfolding s t first(1) first(2) by (rule head_sending)
        then show ?thesis
          by (rule step [OF _ first(3)])
      next
        case last
        have "advance t s = Inr (Some (finishing 0), s)"
          unfolding t last(2) by (rule sending_done)
        then show ?thesis
          unfolding s by (rule step [OF _ last(3)])
      qed
    next
      case (finishing p)
      with sh head have t: "t = finishing 0"
        by simp
      from balanced_head_finishing [OF g0 [unfolded t]] have ra: "ra"
        and g1: "balanced f vs (held rx) (held r) qa (sa \<noteq> 1 \<or> qa \<noteq> []) (sa - 1) qb rb sb
                   (if sa = 1 \<and> qa \<noteq> [] then sch @ [0] else sch) (lg @ [cts_called 0]) None pb"
        by simp_all
      from ra have "ra = True"
        by simp
      show ?thesis
        by (rule step [OF _ g1]) (simp only: s t \<open>ra = True\<close> head_finishing)
    next
      case (ending p)
      with sh head show ?thesis
        by simp
    qed
  next
    case tail
    note step = flow_step_tail [OF ptr pool(1) pool(2) [unfolded tail] sh(2) [unfolded tail]]
    note g0 = g [unfolded tail]
    show ?thesis
    proof (cases t)
      case (starting p)
      with sh tail have t: "t = starting 1"
        by simp
      from balanced_tail_starting [OF g0 [unfolded t]] obtain m where qb: "qb = [m]"
        and g1: "balanced f vs (held rx) (held r) qa ra sa [] rb sb sch lg pa (Some (holding 1 (Some m) True))"
        by blast
      have "advance t s = Inr (Some (holding 1 (Some m) True),
          two_stages (head_stage u qa ra sa (held rx)) (tail_stage f u [] rb sb (held r)) sch lg)"
        unfolding s t qb by (simp only: tail_starting) simp
      then show ?thesis
        by (rule step [OF _ g1])
    next
      case (holding p msg c)
      with sh tail have t: "t = holding 1 msg c"
        by simp
      from balanced_tail_holding [OF g0 [unfolded t]] have c: "c = True" and ra: "ra = True"
        and g1: "balanced f vs (held rx) (held r) qa (sa \<noteq> 1 \<or> qa \<noteq> []) (sa - 1) qb rb sb
                   (if sa = 1 \<and> qa \<noteq> [] then sch @ [0] else sch) (lg @ [cts_called 0]) pa
                   (Some (invoking 1 msg))"
        by simp_all
      show ?thesis
        by (rule step [OF _ g1]) (simp only: s t c ra tail_holding)
    next
      case (invoking p msg)
      with sh tail have t: "t = invoking 1 msg"
        by simp
      from balanced_tail_invoking [OF g0 [unfolded t]] obtain m where msg: "msg = Some m"
        and g1: "balanced f vs (held rx) (held r) qa ra sa qb rb sb sch (lg @ [invoked 1 m (f m)]) pa
                   (Some (snapshot 1 (f m)))"
        by blast
      show ?thesis
        by (rule step [OF _ g1]) (simp only: s t msg tail_invoking)
    next
      case (snapshot p v)
      with sh tail have t: "t = snapshot 1 v"
        by simp
      note g1 = balanced_tail_snapshot [OF g0 [unfolded t]]
      show ?thesis
        by (rule step [OF _ g1]) (simp only: s t tail_snapshot)
    next
      case (asserting p v n)
      with sh tail have t: "t = asserting 1 v n"
        by simp
      note both = balanced_tail_asserting [OF g0 [unfolded t]]
      note sb = both [THEN conjunct1] and g1 = both [THEN conjunct2]
      have "advance t s = Inr (Some (marking 1 v n), s)"
        unfolding s t sb by (rule tail_asserting)
      then show ?thesis
        unfolding s by (rule step [OF _ g1])
    next
      case (marking p v n)
      with sh tail have t: "t = marking 1 v n"
        by simp
      from balanced_tail_marking [OF g0 [unfolded t]] have n: "n = 0"
        and g1: "balanced f vs (held rx) (held r) qa ra sa qb rb 1 sch lg pa (Some (sending 1 v 0 0))"
        by simp_all
      show ?thesis
        by (rule step [OF _ g1]) (simp only: s t n tail_marking)
    next
      case (sending p v i n)
      with sh tail have t: "t = sending 1 v i n"
        by simp
      from balanced_tail_sending [OF g0 [unfolded t]] have n: "n = 0"
        and g1: "balanced f vs (held rx) (held r) qa ra sa qb rb sb sch lg pa (Some (finishing 1))"
        by simp_all
      have "advance t s = Inr (Some (finishing 1), s)"
        unfolding t n by (rule sending_done)
      then show ?thesis
        unfolding s by (rule step [OF _ g1])
    next
      case (finishing p)
      with sh tail have t: "t = finishing 1"
        by simp
      from balanced_tail_finishing [OF g0 [unfolded t]] have rb: "rb = True"
        and g1: "balanced f vs (held rx) (held r) qa ra sa qb (sb \<noteq> 1 \<or> qb \<noteq> []) (sb - 1)
                   (if sb = 1 \<and> qb \<noteq> [] then sch @ [1] else sch) (lg @ [cts_called 1]) pa None"
        by simp_all
      show ?thesis
        by (rule step [OF _ g1]) (simp only: s t rb tail_finishing)
    next
      case (ending p)
      with sh tail show ?thesis
        by simp
    qed
  qed
qed

lemma flow_inv_built:
  assumes "channel u empty_system = ((tx, rx), s0)"
    and "compose rx (plain_function f u) s0 = Inr ((rx1, r1), s1)"
  shows "flow_inv f u [] rx1 r1 s1 []"
proof -
  from built_eq [OF assms] have s1: "s1 = two_stages (head_stage u [] False 0 (held rx1))
      (tail_stage f u [] False 0 (held r1)) [] []"
    and rx1: "r_p rx1 = Some 0" "held rx1 = 1" and r1: "r_p r1 = Some 1" "held r1 = 1"
    by (simp_all add: held_def)
  have "balanced f [] (held rx1) (held r1) [] False 0 [] False 0 [] [] None None"
    unfolding rx1 r1 by (rule balanced_built)
  with rx1 r1 show ?thesis
    unfolding s1 by (intro flow_invI) simp_all
qed

lemma flow_inv_produced:
  assumes "flow_inv f u vs rx r s ts"
  shows "flow_inv f u (vs @ [v]) rx r (sender_call (Some 0) v s) ts"
  using assms
proof (rule flow_invE)
  fix qa ra sa qb rb sb sch lg pa pb
  assume s: "s = two_stages (head_stage u qa ra sa (held rx)) (tail_stage f u qb rb sb (held r)) sch lg"
    and ptr: "r_p rx = Some 0" "r_p r = Some 1"
    and pool: "distinct ts" "set ts = set_option pa \<union> set_option pb"
    and g: "balanced f vs (held rx) (held r) qa ra sa qb rb sb sch lg pa pb"
  show ?thesis
    unfolding s produce_eq using ptr pool balanced_produced [OF g] by (intro flow_invI)
qed

lemma flow_inv_head_ready:
  assumes "flow_inv f u vs rx r s ts" and "set_ready rx s = (rx1, s1)"
  shows "flow_inv f u vs rx1 r s1 ts"
  using assms(1)
proof (rule flow_invE)
  fix qa ra sa qb rb sb sch lg pa pb
  assume s: "s = two_stages (head_stage u qa ra sa (held rx)) (tail_stage f u qb rb sb (held r)) sch lg"
    and ptr: "r_p rx = Some 0" "r_p r = Some 1"
    and pool: "distinct ts" "set ts = set_option pa \<union> set_option pb"
    and g: "balanced f vs (held rx) (held r) qa ra sa qb rb sb sch lg pa pb"
  from assms(2) have rx1: "rx1 = rx\<lparr>r_ready := True\<rparr>"
    by (simp add: set_ready_eq)
  then have h1: "held rx1 = 0" and p1: "r_p rx1 = Some 0"
    using ptr by (simp_all add: held_def)
  show ?thesis
  proof (cases "r_ready rx")
    case True
    with assms(2) have "s1 = s" and h: "held rx = 0"
      by (simp_all add: set_ready_eq held_def)
    with s h1 have eq: "s1 = two_stages (head_stage u qa ra sa (held rx1))
        (tail_stage f u qb rb sb (held r)) sch lg"
      by simp
    from g h h1 have "balanced f vs (held rx1) (held r) qa ra sa qb rb sb sch lg pa pb"
      by simp
    with p1 ptr pool show ?thesis
      unfolding eq by (intro flow_invI)
  next
    case False
    then have h: "held rx = 1"
      by (simp add: held_def)
    from False assms(2) ptr have "s1 = remove_receiver 0 s"
      by (simp add: set_ready_eq)
    with s h h1 have eq: "s1 = two_stages (head_stage u qa (ra \<or> qa \<noteq> []) sa (held rx1))
        (tail_stage f u qb rb sb (held r)) (if qa \<noteq> [] \<and> \<not> ra then sch @ [0] else sch) lg"
      by (simp add: head_ready_eq)
    from balanced_head_ready [OF g [unfolded h]] h1
    have "balanced f vs (held rx1) (held r) qa (ra \<or> qa \<noteq> []) sa qb rb sb
        (if qa \<noteq> [] \<and> \<not> ra then sch @ [0] else sch) lg pa pb"
      by simp
    with p1 ptr pool show ?thesis
      unfolding eq by (intro flow_invI)
  qed
qed

lemma flow_inv_tail_ready:
  assumes "flow_inv f u vs rx r s ts" and "set_ready r s = (r1, s1)"
  shows "flow_inv f u vs rx r1 s1 ts"
  using assms(1)
proof (rule flow_invE)
  fix qa ra sa qb rb sb sch lg pa pb
  assume s: "s = two_stages (head_stage u qa ra sa (held rx)) (tail_stage f u qb rb sb (held r)) sch lg"
    and ptr: "r_p rx = Some 0" "r_p r = Some 1"
    and pool: "distinct ts" "set ts = set_option pa \<union> set_option pb"
    and g: "balanced f vs (held rx) (held r) qa ra sa qb rb sb sch lg pa pb"
  from assms(2) have r1: "r1 = r\<lparr>r_ready := True\<rparr>"
    by (simp add: set_ready_eq)
  then have h1: "held r1 = 0" and p1: "r_p r1 = Some 1"
    using ptr by (simp_all add: held_def)
  show ?thesis
  proof (cases "r_ready r")
    case True
    with assms(2) have "s1 = s" and h: "held r = 0"
      by (simp_all add: set_ready_eq held_def)
    with s h1 have eq: "s1 = two_stages (head_stage u qa ra sa (held rx))
        (tail_stage f u qb rb sb (held r1)) sch lg"
      by simp
    from g h h1 have "balanced f vs (held rx) (held r1) qa ra sa qb rb sb sch lg pa pb"
      by simp
    with p1 ptr pool show ?thesis
      unfolding eq by (intro flow_invI)
  next
    case False
    then have h: "held r = 1"
      by (simp add: held_def)
    from False assms(2) ptr have "s1 = remove_receiver 1 s"
      by (simp add: set_ready_eq)
    then have eq: "s1 = two_stages (head_stage u qa ra sa (held rx))
        (tail_stage f u qb (rb \<or> qb \<noteq> []) sb (held r1))
        (if qb \<noteq> [] \<and> \<not> rb then sch @ [1] else sch) lg"
      unfolding s h h1 by (simp only: tail_ready_eq)
    from balanced_tail_ready [OF g [unfolded h]] h1
    have "balanced f vs (held rx) (held r1) qa ra sa qb (rb \<or> qb \<noteq> []) sb
        (if qb \<noteq> [] \<and> \<not> rb then sch @ [1] else sch) lg pa pb"
      by simp
    with p1 ptr pool show ?thesis
      unfolding eq by (intro flow_invI)
  qed
qed

lemma flow_inv_dispatched:
  assumes "flow_inv f u vs rx r s ts" and "i < length (scheduled s)"
  shows "flow_inv f u vs rx r (s\<lparr>scheduled := take i (scheduled s) @ drop (Suc i) (scheduled s)\<rparr>)
           (starting (scheduled s ! i) # ts)"
  using assms(1)
proof (rule flow_invE)
  fix qa ra sa qb rb sb sch lg pa pb
  assume s: "s = two_stages (head_stage u qa ra sa (held rx)) (tail_stage f u qb rb sb (held r)) sch lg"
    and ptr: "r_p rx = Some 0" "r_p r = Some 1"
    and pool: "distinct ts" "set ts = set_option pa \<union> set_option pb"
    and g: "balanced f vs (held rx) (held r) qa ra sa qb rb sb sch lg pa pb"
  let ?sch = "take i sch @ drop (Suc i) sch"
  from s have sch: "scheduled s = sch"
    by (simp add: two_stages_def)
  from s have eq: "s\<lparr>scheduled := ?sch\<rparr>
      = two_stages (head_stage u qa ra sa (held rx)) (tail_stage f u qb rb sb (held r)) ?sch lg"
    by (simp add: two_stages_def)
  from g have sh: "shape 0 1 pa" "shape 1 0 pb"
    by (simp_all add: balanced_def)
  from assms(2) sch have i: "i < length sch"
    by simp
  from balanced_dispatched [OF g i]
  consider (head) "sch ! i = 0" "pa = None"
      "balanced f vs (held rx) (held r) qa ra sa qb rb sb ?sch lg (Some (starting 0)) pb"
    | (tail) "sch ! i = 1" "pb = None"
      "balanced f vs (held rx) (held r) qa ra sa qb rb sb ?sch lg pa (Some (starting 1))"
    by (elim disjE conjE)
  then show ?thesis
  proof cases
    case head
    from shape_apart [of 1 "Some (starting 0)" 0 pb] sh have "Some (starting 0) \<noteq> pb"
      by auto
    with pool head have "distinct (starting 0 # ts)"
      and "set (starting 0 # ts) = set_option (Some (starting 0)) \<union> set_option pb"
      by (cases pb; auto)+
    with ptr head(3) show ?thesis
      unfolding sch eq head(1) by (intro flow_invI)
  next
    case tail
    from shape_apart [of 1 pa 0 "Some (starting 1)"] sh have "pa \<noteq> Some (starting 1)"
      by auto
    with pool tail have "distinct (starting 1 # ts)"
      and "set (starting 1 # ts) = set_option pa \<union> set_option (Some (starting 1))"
      by (cases pa; auto)+
    with ptr tail(3) show ?thesis
      unfolding sch eq tail(1) by (intro flow_invI)
  qed
qed

lemma concurrent_flow_inv: "concurrent f u vs rx r s ts \<Longrightarrow> flow_inv f u vs rx r s ts"
proof (induction rule: concurrent.induct)
  case (built tx rx s0 rx1 r1 s1)
  then show ?case by (rule flow_inv_built)
next
  case (produced vs rx r s ts v)
  then show ?case by (simp add: flow_inv_produced)
next
  case (head_ready vs rx r s ts rx1 s1)
  then show ?case by (simp add: flow_inv_head_ready)
next
  case (tail_ready vs rx r s ts r1 s1)
  then show ?case by (simp add: flow_inv_tail_ready)
next
  case (dispatched vs rx r s ts i)
  then show ?case by (simp add: flow_inv_dispatched)
next
  case (advanced vs rx r s ts t t1 s1)
  with flow_inv_advanced [of f u vs rx r s ts t] show ?case
    by auto
qed

lemma flow_inv_complete:
  "flow_inv f u vs rx r s ts \<Longrightarrow> t \<in> set ts \<Longrightarrow>
   \<exists>s1. complete t s = Inr s1 \<and> flow_inv f u vs rx r s1 (remove1 t ts)"
proof (induction t s arbitrary: ts rule: complete.induct)
  case (1 t s)
  from flow_inv_advanced [OF "1.prems"] obtain t1 s2 where adv: "advance t s = Inr (t1, s2)"
    and inv: "flow_inv f u vs rx r s2 (case t1 of None \<Rightarrow> remove1 t ts | Some t2 \<Rightarrow> t2 # remove1 t ts)"
    by blast
  show ?case
  proof (cases t1)
    case None
    with adv have "complete t s = Inr s2"
      by (subst complete.simps) simp
    with inv None show ?thesis
      by simp
  next
    case (Some t2)
    with adv have eq: "complete t s = complete t2 s2"
      by (subst complete.simps) simp
    from inv Some have "flow_inv f u vs rx r s2 (t2 # remove1 t ts)"
      by simp
    from "1.IH" [OF adv refl Some this] show ?thesis
      unfolding eq by simp
  qed
qed

lemma concurrent_complete:
  "concurrent f u vs rx r s ts \<Longrightarrow> t \<in> set ts \<Longrightarrow> complete t s = Inr s1 \<Longrightarrow>
   concurrent f u vs rx r s1 (remove1 t ts)"
proof (induction t s arbitrary: ts rule: complete.induct)
  case (1 t s)
  from "1.prems"(3) obtain t1 s2 where adv: "advance t s = Inr (t1, s2)"
    by (subst (asm) complete.simps) (auto split: sum.splits)
  from "1.prems"(1,2) adv
  have step: "concurrent f u vs rx r s2 (case t1 of None \<Rightarrow> remove1 t ts | Some t2 \<Rightarrow> t2 # remove1 t ts)"
    by (rule concurrent.advanced)
  show ?case
  proof (cases t1)
    case None
    with adv "1.prems"(3) have "s1 = s2"
      by (subst (asm) complete.simps) simp
    with step None show ?thesis
      by simp
  next
    case (Some t2)
    with adv "1.prems"(3) have run: "complete t2 s2 = Inr s1"
      by (subst (asm) complete.simps) simp
    from step Some have "concurrent f u vs rx r s2 (t2 # remove1 t ts)"
      by simp
    from "1.IH" [OF adv refl Some this _ run] show ?thesis
      by simp
  qed
qed

lemma concurrent_executed:
  assumes "concurrent f u vs rx r s ts" and "execute i s = Inr s1"
  shows "concurrent f u vs rx r s1 ts"
proof (cases "i < length (scheduled s)")
  case False
  with assms show ?thesis
    by (simp add: execute_def)
next
  case True
  let ?p = "scheduled s ! i"
  let ?s = "s\<lparr>scheduled := take i (scheduled s) @ drop (Suc i) (scheduled s)\<rparr>"
  from assms(1) True have a: "concurrent f u vs rx r ?s (starting ?p # ts)"
    by (rule concurrent.dispatched)
  from assms(2) True have b: "complete (starting ?p) ?s = Inr s1"
    by (simp add: execute_def complete_starting)
  from concurrent_complete [OF a _ b] show ?thesis
    by simp
qed

lemma flow_inv_executed:
  assumes "flow_inv f u vs rx r s ts"
  shows "\<exists>s1. execute i s = Inr s1"
proof (cases "i < length (scheduled s)")
  case False
  then show ?thesis
    by (simp add: execute_def)
next
  case True
  let ?p = "scheduled s ! i"
  let ?s = "s\<lparr>scheduled := take i (scheduled s) @ drop (Suc i) (scheduled s)\<rparr>"
  from assms True have "flow_inv f u vs rx r ?s (starting ?p # ts)"
    by (rule flow_inv_dispatched)
  from flow_inv_complete [OF this, of "starting ?p"] obtain s1 where "complete (starting ?p) ?s = Inr s1"
    by auto
  with True show ?thesis
    by (simp add: execute_def complete_starting)
qed

lemma concurrent_state_of_execute:
  assumes "concurrent f u vs rx r s ts"
  shows "concurrent f u vs rx r (state_of (execute i s)) ts"
proof -
  from flow_inv_executed [OF concurrent_flow_inv [OF assms], of i]
  obtain s1 where s1: "execute i s = Inr s1"
    by blast
  with assms have "concurrent f u vs rx r s1 ts"
    by (rule concurrent_executed)
  with s1 show ?thesis
    by (simp add: state_of_def)
qed

subsection \<open>A run\<close>

lemma mapped_eq:
  "compose head_rx (plain_function ((+) 1) []) head_only =
     Inr ((head_rx, tail_rx),
          two_stages (head_stage [] [] False 0 1) (tail_stage ((+) 1) [] [] False 0 1) [] [])"
  by (auto simp: mapped_def head_only_eq head_rx_def tail_rx_def two_stages_def head_stage_def
      tail_stage_def plain_function_def identity_def runtime_defs intro!: ext)

lemma mapped_state:
  "mapped = two_stages (head_stage [] [] False 0 1) (tail_stage ((+) 1) [] [] False 0 1) [] []"
  by (simp add: mapped_def mapped_eq state_of_def)

lemma execute_two_stages:
  "i < length sch \<Longrightarrow>
   execute i (two_stages a b sch lg) = task (sch ! i) (two_stages a b (take i sch @ drop (Suc i) sch) lg)"
  by (simp add: execute_def two_stages_def)

lemmas pipeline_steps =
  head_ready_eq tail_ready_eq [unfolded One_nat_def] produce_eq
  head_task_eq tail_task_eq [unfolded One_nat_def]

lemma step1: "snd (set_ready tail_rx (snd (set_ready head_rx mapped))) =
   two_stages (head_stage [] [] False 0 0) (tail_stage ((+) 1) [] [] False 0 0) [] []"
  by (simp add: mapped_state set_ready_eq head_rx_def tail_rx_def pipeline_steps)

lemma served_eq:
  "served = two_stages (head_stage [] [] False 0 0) (tail_stage ((+) 1) [] [] False 0 0) []
     [invoked 0 10 10, cts_called 0, cts_called 0, invoked 1 10 11, cts_called 1,
      invoked 0 20 20, cts_called 0, cts_called 0, invoked 1 20 21, cts_called 1]"
  by (simp add: served_def step1 pipeline_steps execute_two_stages state_of_def)

lemma served_reached:
  "concurrent ((+) 1) [] [10, 20] (head_rx\<lparr>r_ready := True\<rparr>) (tail_rx\<lparr>r_ready := True\<rparr>) served []"
proof -
  let ?f = "(+) (1 :: int)"
  let ?u = "[] :: int list"
  have "channel ?u empty_system = ((Some 0, head_rx), head_only)"
    by (simp add: head_only_def head_rx_def channel_def make_shared_def empty_system_def)
  then have "concurrent ?f ?u [] head_rx tail_rx
      (two_stages (head_stage [] [] False 0 1) (tail_stage ((+) 1) [] [] False 0 1) [] []) []"
    using mapped_eq by (rule concurrent.built)
  then have "concurrent ?f ?u [] head_rx tail_rx mapped []"
    using mapped_eq by (simp add: mapped_def state_of_def)
  then have "concurrent ?f ?u [] (head_rx\<lparr>r_ready := True\<rparr>) tail_rx (snd (set_ready head_rx mapped)) []"
    by (rule concurrent.head_ready) (simp add: set_ready_eq)
  then have "concurrent ?f ?u [] (head_rx\<lparr>r_ready := True\<rparr>) (tail_rx\<lparr>r_ready := True\<rparr>)
      (snd (set_ready tail_rx (snd (set_ready head_rx mapped)))) []"
    by (rule concurrent.tail_ready) (simp add: set_ready_eq)
  then have "concurrent ?f ?u ([] @ [10]) (head_rx\<lparr>r_ready := True\<rparr>) (tail_rx\<lparr>r_ready := True\<rparr>)
      (sender_call (Some 0) 10 (snd (set_ready tail_rx (snd (set_ready head_rx mapped))))) []"
    by (rule concurrent.produced)
  then have "concurrent ?f ?u (([] @ [10]) @ [20]) (head_rx\<lparr>r_ready := True\<rparr>) (tail_rx\<lparr>r_ready := True\<rparr>)
      (sender_call (Some 0) 20
        (sender_call (Some 0) 10 (snd (set_ready tail_rx (snd (set_ready head_rx mapped)))))) []"
    by (rule concurrent.produced)
  then show ?thesis
    unfolding served_def by (auto intro!: concurrent_state_of_execute)
qed

lemma concurrent_facts:
  assumes "concurrent f u vs rx r s ts"
  shows "(\<exists>ws. observed 1 (log s) @ map f ws = map f vs)
      \<and> (\<forall>sp. heap s 1 = Some sp \<longrightarrow> length (process_message_queue sp) \<le> 1)
      \<and> (ts = [] \<longrightarrow> tokens 0 (log s) = length (observed 0 (log s)) + length (observed 1 (log s)))
      \<and> (ts = [] \<and> scheduled s = [] \<and> r_ready rx \<and> r_ready r \<longrightarrow>
           observed 0 (log s) = vs \<and> observed 1 (log s) = map f vs)"
  using concurrent_flow_inv [OF assms]
proof (rule flow_invE)
  fix qa ra sa qb rb sb sch lg pa pb
  assume s: "s = two_stages (head_stage u qa ra sa (held rx)) (tail_stage f u qb rb sb (held r)) sch lg"
    and pool: "set ts = set_option pa \<union> set_option pb"
    and g: "balanced f vs (held rx) (held r) qa ra sa qb rb sb sch lg pa pb"
  from s have lg: "log s = lg" and sch: "scheduled s = sch"
    and tail: "heap s 1 = Some (tail_stage f u qb rb sb (held r))"
    by (simp_all add: two_stages_def)
  from g have "observed 1 lg @ map f (in_hand pb @ qb @ unsent pa @ in_hand pa @ qa) = map f vs"
    by (simp add: balanced_def)
  with lg have first: "\<exists>ws. observed 1 (log s) @ map f ws = map f vs"
    by blast
  from g have "length qb \<le> 1"
    by (simp add: balanced_def)
  with tail have second: "\<forall>sp. heap s 1 = Some sp \<longrightarrow> length (process_message_queue sp) \<le> 1"
    by (simp add: tail_stage_def)
  have idle: "pa = None \<and> pb = None" if "ts = []"
    using that pool by (cases pa; cases pb) auto
  have third: "ts = [] \<longrightarrow> tokens 0 (log s) = length (observed 0 (log s)) + length (observed 1 (log s))"
  proof
    assume "ts = []"
    with idle g have "balanced f vs (held rx) (held r) qa ra sa qb rb sb sch lg None None"
      by simp
    with lg show "tokens 0 (log s) = length (observed 0 (log s)) + length (observed 1 (log s))"
      by (simp add: balanced_idle(1))
  qed
  have fourth: "ts = [] \<and> scheduled s = [] \<and> r_ready rx \<and> r_ready r \<longrightarrow>
      observed 0 (log s) = vs \<and> observed 1 (log s) = map f vs"
  proof
    assume q: "ts = [] \<and> scheduled s = [] \<and> r_ready rx \<and> r_ready r"
    with idle g have g0: "balanced f vs (held rx) (held r) qa ra sa qb rb sb sch lg None None"
      by simp
    from q sch have "sch = []" and "held rx = 0" and "held r = 0"
      by (simp_all add: held_def)
    with balanced_idle(4) [OF g0] have "qa = []" and "qb = []"
      by simp_all
    with balanced_idle(2,3) [OF g0] lg
    show "observed 0 (log s) = vs \<and> observed 1 (log s) = map f vs"
      by simp
  qed
  from first second third fourth show ?thesis
    by (intro conjI)
qed

section \<open>Composition\<close>

text \<open>
  Claim C2 says that \<open>| f\<close> marks the receiver it is applied to as ready, so that the
  receiver no longer counts in \<open>receiver_count\<close>. \<open>operator|\<close> is a \<open>const\<close> member and
  never touches \<open>_ready\<close> or the count (a TODO in it says that a ready receiver should be
  an error): after \<open>head | identity\<close> the head's receiver is still not ready and the
  head's \<open>receiver_count\<close> is still 1. \<open>set_ready\<close> is a call of its own.
\<close>

theorem compose_marks_ready_counterexample:
  "map_sum id (r_ready \<circ> fst \<circ> fst) (compose head_rx (identity []) head_only) = Inr False
   \<and> map_option receiver_count (heap head_only 0) = Some 1
   \<and> map_option receiver_count (heap piped 0) = Some 1"
  by (simp add: piped_eq head_only_eq head_rx_def compose_def make_shared_def
      new_shared_process_def identity_def Let_def split: prod.splits)

text \<open>
  C2 as amended: \<open>r | f\<close> leaves the receiver \<open>r\<close> and the \<open>receiver_count\<close> of its
  process as they are. It allocates a shared process for \<open>f\<close> whose upstream is the
  process of \<open>r\<close>, appends a sender for it to the downstream list of that process, and
  returns a receiver for it that is not ready. Nothing else changes: the new process
  has \<open>sender_count\<close> 1 again once \<open>map\<close> has copied and dropped its parameter.
\<close>

theorem compose_leaves_receiver:
  assumes "r_p r = Some u" and "heap s u = Some sp" and "heap s (next_addr s) = None"
  shows "compose r f s =
           Inr ((r, \<lparr>r_p = Some (next_addr s), r_ready = False\<rparr>),
                s\<lparr>heap := (heap s)(next_addr s \<mapsto> new_shared_process f (Some u),
                                   u \<mapsto> sp\<lparr>downstream := downstream sp @ [Some (next_addr s)]\<rparr>),
                  next_addr := next_addr s + 1\<rparr>)"
proof -
  from assms have "next_addr s \<noteq> u"
    by auto
  with assms show ?thesis
    by (auto simp: compose_def make_shared_def map_sender_def sender_copy_def add_sender_def
        modify_def put_def sender_dtor_def remove_sender_def new_shared_process_def Let_def
        fun_upd_twist)
qed

text \<open>\<open>head | identity\<close> in the system that holds the head only.\<close>

theorem compose_leaves_receiver_witness:
  "compose head_rx (identity []) head_only =
     Inr ((head_rx, \<lparr>r_p = Some 1, r_ready = False\<rparr>),
          head_only\<lparr>heap := (heap head_only)(1 \<mapsto> new_shared_process (identity []) (Some 0),
               0 \<mapsto> (new_shared_process (identity []) None)\<lparr>downstream := [Some 1]\<rparr>),
             next_addr := 2\<rparr>)
   \<and> r_ready head_rx = False
   \<and> receiver_count ((new_shared_process (identity [] :: (int, int list) user_process) None)\<lparr>downstream := [Some 1]\<rparr>) = 1"
  using compose_leaves_receiver [of head_rx 0 head_only "new_shared_process (identity []) None" "identity []"]
  by (simp add: head_only_eq head_rx_def new_shared_process_def identity_def)

section \<open>Copying a receiver\<close>

text \<open>
  Claim C3 says that copying a receiver bound to a shared process adds one to that
  process's \<open>receiver_count\<close>, as copying a sender adds one to \<open>sender_count\<close>, and that
  destroying a receiver that is not ready takes one from \<open>receiver_count\<close>. The copy
  constructor of \<open>receiver\<close> calls \<open>add_sender\<close> through a pointer to
  \<open>shared_process_receiver\<close>, which declares no such member: the constructor does not
  compile, so no program copies a receiver and no count is changed by a copy; this is
  not what the specification says of the copy. The copy of a sender does add one to
  \<open>sender_count\<close>, and \<open>remove_receiver\<close>, which the destructor and \<open>set_ready\<close> call on
  a receiver that is not ready, does take one from \<open>receiver_count\<close>.
\<close>

theorem receiver_copy_is_ill_formed:
  "receiver_copy x s = Inl no_such_member
   \<and> receiver_copy x s \<noteq> Inr (receiver_copy_specified x s)
   \<and> (heap s p = Some sp \<and> \<not> result_void (process sp) \<longrightarrow>
        sender_copy (Some p) s = (Some p, put p (sp\<lparr>sender_count := sender_count sp + 1\<rparr>) s)
      \<and> receiver_copy_specified \<lparr>r_p = Some p, r_ready = b\<rparr> s
          = (\<lparr>r_p = Some p, r_ready = False\<rparr>, put p (sp\<lparr>receiver_count := receiver_count sp + 1\<rparr>) s)
      \<and> look receiver_count p (remove_receiver p s) = Some (receiver_count sp - 1))"
proof (intro conjI impI)
  show ill: "receiver_copy x s = Inl no_such_member"
    by (simp add: receiver_copy_def shared_process_receiver_def)
  then show "receiver_copy x s \<noteq> Inr (receiver_copy_specified x s)"
    by simp
next
  assume a: "heap s p = Some sp \<and> \<not> result_void (process sp)"
  then show "sender_copy (Some p) s = (Some p, put p (sp\<lparr>sender_count := sender_count sp + 1\<rparr>) s)"
    by (simp add: sender_copy_def add_sender_def modify_def)
  from a show "receiver_copy_specified \<lparr>r_p = Some p, r_ready = b\<rparr> s
      = (\<lparr>r_p = Some p, r_ready = False\<rparr>, put p (sp\<lparr>receiver_count := receiver_count sp + 1\<rparr>) s)"
    by (simp add: receiver_copy_specified_def add_receiver_def modify_def)
  from a show "look receiver_count p (remove_receiver p s) = Some (receiver_count sp - 1)"
    by (simp add: look_def remove_receiver_def remove_receiver_locked_def put_def run_def Let_def)
qed

text \<open>
  The receiver that \<open>channel\<close> returned: its copy does not compile; the copy the
  specification describes would make the head count two receivers; a copy of the sender
  makes it count two senders; \<open>remove_receiver\<close> takes its receiver count to zero.
\<close>

theorem receiver_copy_is_ill_formed_witness:
  "look receiver_count 0 head_only = Some 1
   \<and> look sender_count 0 head_only = Some 1
   \<and> receiver_copy head_rx head_only = Inl no_such_member
   \<and> look receiver_count 0 (snd (receiver_copy_specified head_rx head_only)) = Some 2
   \<and> look sender_count 0 (snd (sender_copy (Some 0) head_only)) = Some 2
   \<and> look receiver_count 0 (remove_receiver 0 head_only) = Some 0"
proof -
  let ?head = "new_shared_process (identity ([] :: int list)) None :: (int, int list) shared_process"
  have head: "heap head_only 0 = Some ?head \<and> \<not> result_void (process ?head)"
    by (simp add: head_only_eq new_shared_process_def identity_def)
  note all = receiver_copy_is_ill_formed [of head_rx head_only 0 ?head False]
  from all have "receiver_copy head_rx head_only = Inl no_such_member"
    by (rule conjunct1)
  moreover from all [THEN conjunct2, THEN conjunct2, rule_format, OF head]
  have "sender_copy (Some 0) head_only = (Some 0, put 0 (?head\<lparr>sender_count := sender_count ?head + 1\<rparr>) head_only)"
    and "receiver_copy_specified \<lparr>r_p = Some 0, r_ready = False\<rparr> head_only
      = (\<lparr>r_p = Some 0, r_ready = False\<rparr>, put 0 (?head\<lparr>receiver_count := receiver_count ?head + 1\<rparr>) head_only)"
    and "look receiver_count 0 (remove_receiver 0 head_only) = Some (receiver_count ?head - 1)"
    by simp_all
  ultimately show ?thesis
    by (simp add: head_only_eq head_rx_def new_shared_process_def identity_def put_def look_def)
qed

section \<open>First in, first out\<close>



section \<open>Broadcast\<close>

text \<open>
  Claim C5: \<open>broadcast\<close> takes the size \<open>n\<close> of the downstream list at its start,
  asserts that \<open>suspend_count\<close> is zero and sets it to \<open>n + 1\<close>, and calls the first \<open>n\<close>
  senders once each, in the order of the list. Whatever is appended to the list after
  the snapshot (\<open>late\<close>), the calls are those of the snapshot's senders; a process whose
  sender is not among them is left as it is, and a later broadcast, whose snapshot holds
  the appended senders, reaches it.
\<close>

theorem broadcast_snapshot:
  assumes "heap s p = Some sp"
  shows "broadcast_begin p s =
           (if process_suspend_count sp \<noteq> 0 then Inl broadcasting_while_suspended
            else Inr (length (downstream sp),
                      put p (sp\<lparr>process_suspend_count := of_nat (length (downstream sp)) + 1\<rparr>) s))
       \<and> broadcast p args s =
           (if process_suspend_count sp \<noteq> 0 then Inl broadcasting_while_suspended
            else Inr (fold (\<lambda>e. sender_call e args) (downstream sp)
                      (put p (sp\<lparr>process_suspend_count := of_nat (length (downstream sp)) + 1\<rparr>) s)))
       \<and> (\<forall>t tp late. heap t p = Some tp \<and> downstream tp = downstream sp @ late \<longrightarrow>
              broadcast_send p (length (downstream sp)) args t
                = fold (\<lambda>e. sender_call e args) (downstream sp) t
              \<and> (\<forall>q. Some q \<notin> set (downstream sp) \<longrightarrow>
                    heap (broadcast_send p (length (downstream sp)) args t) q = heap t q))"
  using assms
  by (auto simp: broadcast_def broadcast_begin_def broadcast_send_def for_each_n_fold Let_def
      heap_fold_sender_call_other)

text \<open>
  The head's snapshot holds one sender; a third stage is attached after it. The
  message 7 reaches the second stage and not the third, and a second broadcast before
  the tokens are back fails its assertion.
\<close>

theorem broadcast_snapshot_witness:
  "look downstream 0 piped = Some [Some 1]
   \<and> map_sum id fst (broadcast_begin 0 piped) = Inr 1
   \<and> look process_suspend_count 0 snapshot_taken = Some 2
   \<and> look downstream 0 late_joined = Some [Some 1, Some 2]
   \<and> look process_message_queue 1 (broadcast_send 0 1 7 late_joined) = Some [7]
   \<and> look process_message_queue 2 (broadcast_send 0 1 7 late_joined) = Some []
   \<and> map_sum id fst (broadcast_begin 0 snapshot_taken) = Inl broadcasting_while_suspended"
proof -
  let ?head = "(new_shared_process (identity [] :: (int, int list) user_process) None)\<lparr>downstream := [Some 1]\<rparr>"
  let ?late = "?head\<lparr>downstream := [Some 1, Some 2], process_suspend_count := 2\<rparr>"
  let ?again = "?head\<lparr>process_suspend_count := 2\<rparr>"
  have head: "heap piped 0 = Some ?head"
    by (simp add: piped_eq)
  have late: "heap late_joined 0 = Some ?late"
    by (simp add: late_joined_eq)
  have again: "heap snapshot_taken 0 = Some ?again"
    by (simp add: snapshot_taken_eq)
  have "broadcast_begin 0 piped = Inr (1, put 0 (?head\<lparr>process_suspend_count := 2\<rparr>) piped)"
    using broadcast_snapshot [OF head, of 7, THEN conjunct1] by (simp add: new_shared_process_def identity_def)
  moreover have "broadcast_begin 0 snapshot_taken = Inl broadcasting_while_suspended"
    using broadcast_snapshot [OF again, of 7, THEN conjunct1] by (simp add: new_shared_process_def identity_def)
  moreover note joined = broadcast_snapshot [OF head, of 7, THEN conjunct2, THEN conjunct2,
      rule_format, of late_joined ?late "[Some 2]"]
  have "broadcast_send 0 1 7 late_joined = sender_call (Some 1) 7 late_joined"
    using joined [THEN conjunct1] late by (simp add: new_shared_process_def identity_def)
  moreover have "heap (broadcast_send 0 1 7 late_joined) 2 = heap late_joined 2"
    using joined [THEN conjunct2, rule_format, of 2] late
    by (simp add: new_shared_process_def identity_def)
  ultimately show ?thesis
    by (simp add: head again late late_joined_eq new_shared_process_def identity_def
      sender_call_def send_def send_locked_def put_def Let_def)
qed

section \<open>The last cts\<close>

text \<open>
  Claim C6: when a \<open>cts\<close> takes \<open>suspend_count\<close> from 1 to zero (the process is
  running, as the assertion demands), a step is scheduled if the user process reports
  \<open>yield\<close>, or the message queue is not empty, or \<open>close_queue\<close> is set; otherwise
  \<open>process_running\<close> is set to false and nothing is scheduled.
\<close>

theorem cts_to_zero:
  assumes "heap s p = Some sp" and "process_running sp" and "process_suspend_count sp = 1"
  shows "cts p s = Inr (emit (cts_called p)
           (if get_process_state (process sp) = yield \<or> process_message_queue sp \<noteq> []
               \<or> process_close_queue sp
            then run p (put p (sp\<lparr>process_suspend_count := 0\<rparr>) s)
            else put p (sp\<lparr>process_suspend_count := 0, process_running := False\<rparr>) s))"
  using assms by (auto simp: cts_def cts_locked_def Let_def emit_def run_def put_def)

text \<open>
  The head after its broadcast waits for one token. With an empty queue the token stops
  it; with the message 11 queued the token schedules its next step.
\<close>

theorem cts_to_zero_witness:
  "look process_suspend_count 0 head_ran = Some 1
   \<and> look process_message_queue 0 head_ran = Some []
   \<and> map_sum id scheduled (cts 0 head_ran) = Inr (scheduled head_ran)
   \<and> map_sum id (look process_running 0) (cts 0 head_ran) = Inr (Some False)
   \<and> map_sum id (look process_suspend_count 0) (cts 0 head_ran) = Inr (Some 0)
   \<and> look process_message_queue 0 (sender_call (Some 0) 11 head_ran) = Some [11]
   \<and> map_sum id scheduled (cts 0 (sender_call (Some 0) 11 head_ran)) = Inr (scheduled head_ran @ [0])
   \<and> map_sum id (look process_running 0) (cts 0 (sender_call (Some 0) 11 head_ran)) = Inr (Some True)"
proof -
  let ?head = "(new_shared_process (identity [] :: (int, int list) user_process) None)\<lparr>downstream := [Some 1],
                 receiver_count := 0, process_running := True, process_suspend_count := 1\<rparr>"
  have idle: "heap head_ran 0 = Some ?head"
    by (simp add: head_ran_eq)
  have busy: "heap (sender_call (Some 0) 11 head_ran) 0 = Some (?head\<lparr>process_message_queue := [11]\<rparr>)"
    and same: "scheduled (sender_call (Some 0) 11 head_ran) = scheduled head_ran"
    by (simp_all add: head_ran_eq sender_call_def send_def send_locked_def new_shared_process_def
        put_def Let_def)
  from cts_to_zero [OF idle] cts_to_zero [OF busy] idle busy same show ?thesis
    by (simp add: new_shared_process_def identity_def get_process_state_def emit_def put_def
        run_def)
qed

section \<open>Running and final\<close>

lemma interleaving_closing_inv: "interleaving sp closing \<Longrightarrow> closing_inv sp closing"
proof (induction rule: interleaving.induct)
  case (created f up)
  then show ?case by (simp add: closing_inv_def new_shared_process_def)
next
  case (cts_received sp closing b sp1)
  then show ?case
    by (auto simp: closing_inv_def cts_locked_def Let_def split: if_splits)
next
  case (dequeued sp closing)
  then show ?case
    by (cases "process_message_queue sp") (auto simp: closing_inv_def dequeue_locked_def)
qed (auto simp: closing_inv_def send_locked_def remove_sender_locked_def
      remove_receiver_locked_def task_done_locked_def Let_def)

text \<open>
  Claim C7: at every \<open>task_done\<close> the reschedule condition (the queue is not empty or
  \<open>close_queue\<close> is set) and the captured \<open>final\<close> are not both true: whenever
  \<open>final\<close> is set, the queue is empty and \<open>close_queue\<close> is clear, so the assertion
  of \<open>task_done\<close> does not fail. This holds of every shared process however the locked
  blocks of the threads interleave, as long as calls, copies and drops of senders come
  from threads that hold a sender.
\<close>

theorem final_excludes_rescheduling:
  assumes "interleaving sp closing"
  shows "(process_final sp \<longrightarrow> process_message_queue sp = [] \<and> \<not> process_close_queue sp)
       \<and> \<not> (fst (fst (task_done_locked sp)) \<and> snd (fst (task_done_locked sp)))
       \<and> (\<forall>s p. heap s p = Some sp \<longrightarrow> task_done p s \<noteq> Inl cant_run_and_close)"
  using interleaving_closing_inv [OF assms]
  by (auto simp: closing_inv_def task_done_def task_done_locked_def Let_def)

lemma closed_head_eq:
  "closed_head = (new_shared_process (identity []) None)\<lparr>sender_count := 0, process_final := True\<rparr>"
  by (simp add: closed_head_def remove_sender_locked_def dequeue_locked_def new_shared_process_def
      identity_def Let_def)

lemma interleaving_closed_head: "interleaving closed_head False"
proof -
  let ?new = "new_shared_process (identity [] :: (int, int list) user_process) None"
  have "interleaving ?new False"
    by (rule interleaving.created)
  then have "interleaving (?new\<lparr>sender_count := sender_count ?new - 1\<rparr>) (sender_count ?new - 1 = 0)"
    by (rule interleaving.sender_removed) (simp add: new_shared_process_def)
  then have "interleaving (?new\<lparr>sender_count := 0\<rparr>) True"
    by (simp add: new_shared_process_def)
  then have "interleaving (snd (remove_sender_locked (?new\<lparr>sender_count := 0\<rparr>))) False"
    by (rule interleaving.sender_closed)
  then show ?thesis
    unfolding closed_head_def by (rule interleaving.dequeued)
qed

text \<open>
  The head of a fresh channel: its sender is dropped, the locked block of
  \<open>remove_sender\<close> sets \<open>close_queue\<close>, and the block of a step turns it into \<open>final\<close>.
  \<open>task_done\<close> then finds nothing to run and the final flag set.
\<close>

theorem final_excludes_rescheduling_witness:
  "interleaving closed_head False
   \<and> process_final closed_head
   \<and> process_message_queue closed_head = []
   \<and> fst (task_done_locked closed_head) = (False, True)
   \<and> task_done 0 (put 0 closed_head empty_system) \<noteq> Inl cant_run_and_close"
proof -
  note safe = final_excludes_rescheduling [OF interleaving_closed_head]
  have "process_final closed_head" and "fst (task_done_locked closed_head) = (False, True)"
    by (simp_all add: closed_head_eq task_done_locked_def new_shared_process_def)
  moreover from safe this have "process_message_queue closed_head = []"
    by simp
  moreover have "task_done 0 (put 0 closed_head empty_system) \<noteq> Inl cant_run_and_close"
    using safe [THEN conjunct2, THEN conjunct2, rule_format, of "put 0 closed_head empty_system" 0]
    by (simp add: put_def)
  ultimately show ?thesis
    using interleaving_closed_head by simp
qed

section \<open>The close hook\<close>

text \<open>
  Claim C8 says that every stage's \<open>close\<close> hook is called once, when the senders are
  gone and the queue has drained. \<open>dequeue\<close> calls \<open>process_close\<close> when it applies the
  close; the \<open>step\<close> without \<open>yield\<close> repeats the block of \<open>dequeue\<close> and leaves the
  call out. So a step of a process without \<open>yield\<close> never logs a \<open>close\<close>, whatever the
  process has, while \<open>dequeue\<close> on a drained and closed queue calls the hook.
\<close>

theorem callable_step_never_closes:
  assumes "heap s p = Some sp"
  shows "(\<not> has_process_yield (process sp) \<longrightarrow>
            (\<forall>s1. step p s = Inr s1 \<longrightarrow>
               (\<exists>es. log s1 = log s @ es \<and> (\<forall>q. close_called q \<notin> set es))))
       \<and> (process_message_queue sp = [] \<and> process_close_queue sp \<and> has_process_close (process sp) \<longrightarrow>
            (\<exists>s1. dequeue p s = Inr (False, s1) \<and> log s1 = log s @ [close_called p]))"
proof (rule conjI; intro impI allI)
  fix s1
  assume callable: "\<not> has_process_yield (process sp)" and st: "step p s = Inr s1"
  with assms have st: "step_no_yield p s = Inr s1"
    by (simp add: step_def)
  show "\<exists>es. log s1 = log s @ es \<and> (\<forall>q. close_called q \<notin> set es)"
  proof (cases "process_message_queue sp")
    case Nil
    with st assms have "log s1 = log s"
      by (auto simp: step_no_yield_drained dest: log_task_done)
    then show ?thesis
      by simp
  next
    case (Cons m ms)
    from step_no_yield_takes [OF assms Cons st] show ?thesis
      by (auto split: option.splits)
  qed
next
  assume "process_message_queue sp = [] \<and> process_close_queue sp \<and> has_process_close (process sp)"
  with assms show "\<exists>s1. dequeue p s = Inr (False, s1) \<and> log s1 = log s @ [close_called p]"
    by (auto simp: dequeue_drained process_close_def has_process_close_def)
qed

text \<open>
  The second stage is a function object with a \<open>close\<close> member; its queue is empty and
  its senders are gone. Its step applies the close (\<open>final\<close> is set) and the hook is not
  called: nothing is logged and the user's data is untouched. With \<open>buffering\<close> in its
  place, \<open>dequeue\<close> calls the hook.
\<close>

theorem callable_step_never_closes_witness:
  "look (has_process_close \<circ> process) 1 closing_head_ran = Some True
   \<and> look (has_process_yield \<circ> process) 1 closing_head_ran = Some False
   \<and> look process_close_queue 1 closing_head_ran = Some True
   \<and> look process_message_queue 1 closing_head_ran = Some []
   \<and> map_sum id (look process_final 1) (step 1 closing_head_ran) = Inr (Some True)
   \<and> map_sum id (look (user \<circ> process) 1) (step 1 closing_head_ran) = Inr (Some [])
   \<and> map_sum id log (step 1 closing_head_ran) = Inr []
   \<and> map_sum id (log \<circ> snd) (dequeue 1 buffer_closing) = Inr [close_called 1]"
proof -
  let ?tail = "(new_shared_process closing_function (Some 0))\<lparr>
                          receiver_count := 0, sender_count := 0, process_close_queue := True,
                          process_running := True\<rparr>"
  let ?buf = "(new_shared_process buffering (Some 0))\<lparr>
                          receiver_count := 0, sender_count := 0, process_close_queue := True,
                          process_running := True\<rparr>"
  have tail: "heap closing_head_ran 1 = Some ?tail"
    by (simp add: closing_head_ran_eq)
  have buf: "heap buffer_closing 1 = Some ?buf"
    by (simp add: buffer_closing_eq)
  have ran: "step 1 closing_head_ran =
      Inr (put 1 (?tail\<lparr>process_close_queue := False, process_final := True, process_running := False\<rparr>)
             closing_head_ran)"
    using tail step_no_yield_drained [OF tail]
    by (simp add: step_def has_process_yield_def closing_function_def new_shared_process_def
        task_done_def task_done_locked_def clear_downstream_def put_def Let_def)
  from callable_step_never_closes [OF tail, THEN conjunct1] ran
  have "\<exists>es. log (put 1 (?tail\<lparr>process_close_queue := False, process_final := True, process_running := False\<rparr>)
             closing_head_ran) = log closing_head_ran @ es \<and> (\<forall>q. close_called q \<notin> set es)"
    by (simp add: has_process_yield_def closing_function_def new_shared_process_def)
  moreover from callable_step_never_closes [OF buf, THEN conjunct2]
  have "\<exists>s1. dequeue 1 buffer_closing = Inr (False, s1) \<and> log s1 = log buffer_closing @ [close_called 1]"
    by (simp add: has_process_close_def buffering_def new_shared_process_def)
  ultimately show ?thesis
    using ran tail
    by (auto simp add: closing_head_ran_eq buffer_closing_eq has_process_close_def has_process_yield_def
        closing_function_def new_shared_process_def)
qed

section \<open>Destroyed processes\<close>

text \<open>
  Claim C9: calling or closing a sender whose shared process is destroyed changes nothing
  (closing leaves the handle empty), and a scheduled task whose shared process is
  destroyed before the executor runs it changes nothing: the executor is rid of the task
  and that is all.
\<close>

theorem destroyed_process_is_ignored:
  assumes "heap s q = None"
  shows "sender_call (Some q) arg s = s
       \<and> sender_close (Some q) s = (None, s)
       \<and> task q s = Inr s
       \<and> (\<forall>i. i < length (scheduled s) \<and> scheduled s ! i = q \<longrightarrow>
              execute i s = Inr (s\<lparr>scheduled := take i (scheduled s) @ drop (Suc i) (scheduled s)\<rparr>))"
  using assms by (simp add: sender_call_def sender_close_def task_def execute_def)

text \<open>
  In \<open>orphaned\<close> the second stage is gone, its step is still scheduled and the head
  still holds its sender.
\<close>

theorem destroyed_process_is_ignored_witness:
  "heap orphaned 1 = None
   \<and> look downstream 0 orphaned = Some [Some 1]
   \<and> scheduled orphaned = [1]
   \<and> sender_call (Some 1) 7 orphaned = orphaned
   \<and> sender_close (Some 1) orphaned = (None, orphaned)
   \<and> execute 0 orphaned = Inr (orphaned\<lparr>scheduled := []\<rparr>)"
  using destroyed_process_is_ignored [of orphaned 1 7]
  by (simp add: orphaned_eq)

section \<open>The step of a process with yield\<close>

text \<open>
  Claim C10: after its loop the \<open>step\<close> with \<open>yield\<close> goes to \<open>task_done\<close> only when
  the process reports \<open>await\<close>; with \<open>await_try\<close> it calls \<open>yield\<close> and broadcasts the
  result, as it does with \<open>yield\<close>. Let the loop end in \<open>s1\<close>, where the process has the
  members \<open>await\<close> and \<open>yield\<close> and its \<open>yield\<close> returns \<open>v\<close>. If the process reports
  \<open>await\<close> the step is \<open>task_done\<close>. Otherwise, \<open>await_try\<close> and \<open>yield\<close> alike, \<open>yield\<close>
  is called, the suspend count must be zero and becomes the number of downstream senders
  plus one, every downstream sender is called with \<open>v\<close>, in list order, and then \<open>cts\<close>
  is called. When the queue is empty, \<open>close_queue\<close> is clear and the process reports
  \<open>await_try\<close>, the loop ends at once, having taken nothing.
\<close>

theorem step_yield_await_try:
  assumes "await_loop p s = Inr s1" and "heap s1 p = Some sp1"
    and "body (process sp1) = stateful a y" and "y (user (process sp1)) = (v, u1)"
  shows "step_yield p s =
           (if get_process_state (process sp1) = await then task_done p s1
            else if process_suspend_count sp1 \<noteq> 0 then Inl broadcasting_while_suspended
            else cts p (fold (\<lambda>e. sender_call e v) (downstream sp1)
                   (put p (sp1\<lparr>process := (process sp1)\<lparr>user := u1\<rparr>,
                               process_suspend_count := of_nat (length (downstream sp1)) + 1\<rparr>)
                      (emit (yield_called p v) s1))))
       \<and> (\<forall>sp. heap s p = Some sp \<and> process_message_queue sp = [] \<and> \<not> process_close_queue sp
                \<and> get_process_state (process sp) = await_try \<longrightarrow>
              s1 = put p (sp\<lparr>process_close_queue := False, process_final := False\<rparr>) s)"
proof
  let ?sp2 = "sp1\<lparr>process := (process sp1)\<lparr>user := u1\<rparr>\<rparr>"
  let ?s2 = "emit (yield_called p v) (put p ?sp2 s1)"
  have yielded: "process_yield p s1 = Some (v, ?s2)"
    using assms(2-4) by (simp add: process_yield_def)
  have sp2: "heap ?s2 p = Some ?sp2"
    by (simp add: emit_def put_def)
  have twice: "put p (?sp2\<lparr>process_suspend_count := of_nat (length (downstream sp1)) + 1\<rparr>) ?s2
      = put p (sp1\<lparr>process := (process sp1)\<lparr>user := u1\<rparr>,
                  process_suspend_count := of_nat (length (downstream sp1)) + 1\<rparr>)
          (emit (yield_called p v) s1)"
    by (simp add: put_def emit_def)
  have "broadcast p v ?s2 =
      (if process_suspend_count sp1 \<noteq> 0 then Inl broadcasting_while_suspended
       else Inr (fold (\<lambda>e. sender_call e v) (downstream sp1)
              (put p (?sp2\<lparr>process_suspend_count := of_nat (length (downstream sp1)) + 1\<rparr>) ?s2)))"
    using sp2 by (simp add: broadcast_def broadcast_begin_def broadcast_send_def for_each_n_fold Let_def)
  with yielded twice have "yield_broadcast_cts p s1 =
      (if process_suspend_count sp1 \<noteq> 0 then Inl broadcasting_while_suspended
       else cts p (fold (\<lambda>e. sender_call e v) (downstream sp1)
              (put p (sp1\<lparr>process := (process sp1)\<lparr>user := u1\<rparr>,
                          process_suspend_count := of_nat (length (downstream sp1)) + 1\<rparr>)
                 (emit (yield_called p v) s1))))"
    by (simp add: yield_broadcast_cts_def broadcast_cts_def)
  with assms(1,2) show "step_yield p s =
           (if get_process_state (process sp1) = await then task_done p s1
            else if process_suspend_count sp1 \<noteq> 0 then Inl broadcasting_while_suspended
            else cts p (fold (\<lambda>e. sender_call e v) (downstream sp1)
                   (put p (sp1\<lparr>process := (process sp1)\<lparr>user := u1\<rparr>,
                               process_suspend_count := of_nat (length (downstream sp1)) + 1\<rparr>)
                      (emit (yield_called p v) s1))))"
    by (simp add: step_yield_def)
next
  show "\<forall>sp. heap s p = Some sp \<and> process_message_queue sp = [] \<and> \<not> process_close_queue sp
                \<and> get_process_state (process sp) = await_try \<longrightarrow>
              s1 = put p (sp\<lparr>process_close_queue := False, process_final := False\<rparr>) s"
  proof (intro allI impI)
    fix sp
    assume a: "heap s p = Some sp \<and> process_message_queue sp = [] \<and> \<not> process_close_queue sp
                \<and> get_process_state (process sp) = await_try"
    then have "await_loop p s = Inr (put p (sp\<lparr>process_close_queue := False, process_final := False\<rparr>) s)"
      by (simp add: await_loop_drained)
    with assms(1) show "s1 = put p (sp\<lparr>process_close_queue := False, process_final := False\<rparr>) s"
      by simp
  qed
qed

text \<open>
  In \<open>buffer_fed\<close> the buffering stage has the 5 in its queue and reports \<open>await\<close>. Its
  loop takes the 5, which gives the head a token, and ends with the queue empty and the
  process reporting \<open>await_try\<close>. The step then yields the 5 and sends it to the third
  stage, whose queue holds it afterwards and whose step is scheduled.
\<close>

theorem step_yield_await_try_witness:
  "look process_message_queue 1 buffer_fed = Some [5]
   \<and> look (get_process_state \<circ> process) 1 buffer_fed = Some await
   \<and> look downstream 1 buffer_fed = Some [Some 2]
   \<and> map_sum id (look process_message_queue 1) (await_loop 1 buffer_fed) = Inr (Some [])
   \<and> map_sum id (look (get_process_state \<circ> process) 1) (await_loop 1 buffer_fed) = Inr (Some await_try)
   \<and> map_sum id (look process_message_queue 2) (step_yield 1 buffer_fed) = Inr (Some [5])
   \<and> map_sum id (look process_suspend_count 1) (step_yield 1 buffer_fed) = Inr (Some 1)
   \<and> map_sum id scheduled (step_yield 1 buffer_fed) = Inr [1, 2]
   \<and> map_sum id log (step_yield 1 buffer_fed)
        = Inr (log buffer_fed @ [cts_called 0, await_called 1 5, yield_called 1 5, cts_called 1])"
proof -
  let ?head = "(new_shared_process (identity ([] :: int list)) None)\<lparr>downstream := [Some 1],
      receiver_count := 0\<rparr> :: (int, int list) shared_process"
  let ?mid = "(new_shared_process (buffering\<lparr>user := [5]\<rparr>) (Some 0))\<lparr>downstream := [Some 2],
      receiver_count := 0, process_running := True\<rparr>"
  let ?last = "(new_shared_process (identity ([] :: int list)) (Some 1))\<lparr>receiver_count := 0\<rparr>
      :: (int, int list) shared_process"
  let ?s1 = "\<lparr>heap = [0 \<mapsto> ?head, 1 \<mapsto> ?mid, 2 \<mapsto> ?last], scheduled = [1],
      log = [invoked 0 5 5, cts_called 0, cts_called 0, await_called 1 5], next_addr = 3\<rparr>"
  have taken: "dequeue 1 buffer_fed = Inr (True, ?s1)"
    by (auto simp add: buffer_fed_eq identity_def buffering_def runtime_defs intro!: ext)
  have drained: "dequeue 1 ?s1 = Inr (False, ?s1)"
    by (auto simp add: identity_def buffering_def new_shared_process_def runtime_defs intro!: ext)
  have "await_loop 1 ?s1 = Inr ?s1"
    by (subst await_loop.simps)
      (simp only: drained, simp add: new_shared_process_def buffering_def get_process_state_def)
  then have loop: "await_loop 1 buffer_fed = Inr ?s1"
    by (subst await_loop.simps)
      (simp only: taken, simp add: buffer_fed_eq new_shared_process_def buffering_def
        get_process_state_def)
  have mid: "heap ?s1 1 = Some ?mid"
    by simp
  have members: "body (process ?mid) = stateful (\<lambda>x u. u @ [x]) (\<lambda>u. case u of [] \<Rightarrow> (0, []) | x # xs \<Rightarrow> (x, xs))"
    by (simp add: new_shared_process_def buffering_def)
  have gives: "(case user (process ?mid) of [] \<Rightarrow> (0, []) | x # xs \<Rightarrow> (x, xs)) = (5, [])"
    by (simp add: new_shared_process_def buffering_def)
  from step_yield_await_try [OF loop mid members gives, THEN conjunct1]
  have "step_yield 1 buffer_fed =
      cts 1 (fold (\<lambda>e. sender_call e 5) (downstream ?mid)
        (put 1 (?mid\<lparr>process := (process ?mid)\<lparr>user := []\<rparr>,
                    process_suspend_count := of_nat (length (downstream ?mid)) + 1\<rparr>)
           (emit (yield_called 1 5) ?s1)))"
    by (simp add: new_shared_process_def buffering_def get_process_state_def)
  with loop show ?thesis
    by (simp add: buffer_fed_eq new_shared_process_def buffering_def identity_def look_def
        get_process_state_def sender_call_def send_def send_locked_def cts_def cts_locked_def
        put_def emit_def run_def Let_def)
qed

end
